theory Spec2Isabelle
  imports Main
begin

section \<open>Text\<close>

text \<open>
  The two scripts \<^verbatim>\<open>fix_all_glossary.py\<close> and \<^verbatim>\<open>fix_syntax_errors.py\<close> read one
  file as text, run \<^verbatim>\<open>re.sub\<close> over it and write the result back. A Python \<^verbatim>\<open>str\<close> is
  a sequence of Unicode code points, so a document is a list of code points here.

  An Isabelle string literal cannot hold a backslash. \<open>raw\<close> therefore reads the
  character \<^verbatim>\<open>~\<close>, which no pattern or replacement of the scripts contains, as the
  backslash: \<open>raw ''a~(b''\<close> is the Python raw string \<^verbatim>\<open>r'a\(b'\<close>. \<open>plain\<close> converts a
  literal as it stands, and \<open>lit\<close> reads \<^verbatim>\<open>~n\<close> as the newline, as a Python literal without
  the \<^verbatim>\<open>r\<close> prefix reads \<^verbatim>\<open>\n\<close>.
\<close>

type_synonym str = "nat list"

definition plain :: "string \<Rightarrow> str" where
  "plain s = map of_char s"

definition raw :: "string \<Rightarrow> str" where
  "raw s = map (\<lambda>c. if c = CHR ''~'' then 92 else of_char c) s"

fun lit :: "string \<Rightarrow> str" where
  "lit [] = []"
| "lit [c] = [of_char c]"
| "lit (c # d # cs) =
     (if c = CHR ''~'' \<and> d = CHR ''n'' then 10 # lit cs else of_char c # lit (d # cs))"

text \<open>
  \<^verbatim>\<open>\s\<close> in a \<^verbatim>\<open>str\<close> pattern is the Unicode whitespace test of CPython
  (\<^verbatim>\<open>Py_UNICODE_ISSPACE\<close>): U+0009..U+000D, U+001C..U+0020, U+0085, U+00A0, U+1680,
  U+2000..U+200A, U+2028, U+2029, U+202F, U+205F, U+3000.
\<close>

definition is_space :: "nat \<Rightarrow> bool" where
  "is_space c \<longleftrightarrow>
     (9 \<le> c \<and> c \<le> 13) \<or> (28 \<le> c \<and> c \<le> 32) \<or> c = 133 \<or> c = 160 \<or> c = 5760 \<or>
     (8192 \<le> c \<and> c \<le> 8202) \<or> c = 8232 \<or> c = 8233 \<or> c = 8239 \<or> c = 8287 \<or> c = 12288"

definition is_ascii_letter :: "nat \<Rightarrow> bool" where
  "is_ascii_letter c \<longleftrightarrow> (65 \<le> c \<and> c \<le> 90) \<or> (97 \<le> c \<and> c \<le> 122)"

definition is_digit :: "nat \<Rightarrow> bool" where
  "is_digit c \<longleftrightarrow> 48 \<le> c \<and> c \<le> 57"

section \<open>Errors\<close>

text \<open>
  The error taxonomy of the specification: \<open>NotFoundError\<close> is Python's
  \<^verbatim>\<open>FileNotFoundError\<close>, \<open>PatternError\<close> is \<^verbatim>\<open>re.error\<close>, \<open>EncodingError\<close> is
  \<^verbatim>\<open>UnicodeDecodeError\<close> on reading and \<^verbatim>\<open>UnicodeEncodeError\<close> on writing.
  \<open>Unmodelled_syntax\<close> is not a Python exception: it marks a
  pattern or replacement written with regular-expression syntax outside the fragment
  modelled below, about which nothing is stated.
\<close>

datatype error = NotFoundError | PermissionError | PatternError | EncodingError
  | Unmodelled_syntax

section \<open>Regular expressions: the fragment the scripts use\<close>

text \<open>
  Every pattern of the two scripts is built from literal characters, escaped
  characters, \<^verbatim>\<open>\s\<close>, \<^verbatim>\<open>\n\<close>, character sets \<^verbatim>\<open>[...]\<close> and \<^verbatim>\<open>[^...]\<close>, the greedy
  repeats \<^verbatim>\<open>*\<close> and \<^verbatim>\<open>+\<close> of one of these, and capturing groups. The constructors
  follow the parse tree of \<^verbatim>\<open>sre_parse\<close>: \<open>Literal\<close>, \<open>Category_space\<close>, \<open>In_set\<close> (with its
  negation flag), \<open>Max_repeat\<close> (with its minimum count; no maximum) and \<open>Subpattern\<close>
  (with its group number).
\<close>

datatype member = Literal nat | Category_space

datatype atom = Single member | In_set bool "member list"

datatype node = Atom atom | Max_repeat nat atom | Subpattern nat "node list"

fun member_ok :: "member \<Rightarrow> nat \<Rightarrow> bool" where
  "member_ok (Literal l) c = (c = l)"
| "member_ok Category_space c = is_space c"

fun atom_ok :: "atom \<Rightarrow> nat \<Rightarrow> bool" where
  "atom_ok (Single m) c = member_ok m c"
| "atom_ok (In_set negate ms) c = (list_ex (\<lambda>m. member_ok m c) ms \<noteq> negate)"

subsection \<open>Parsing a pattern\<close>

text \<open>
  A two-character escape, as \<^verbatim>\<open>_escape\<close> and \<^verbatim>\<open>_class_escape\<close> read it: \<^verbatim>\<open>\s\<close> is the
  whitespace category, \<^verbatim>\<open>\n\<close> the newline, a backslash before a character that is no
  ASCII letter or digit stands for that character. The other escapes by a letter or a
  digit (some valid, some errors in Python) are outside the fragment.
\<close>

definition escape :: "nat \<Rightarrow> error + member" where
  "escape e =
     (if e = of_char (CHR ''s'') then Inr Category_space
      else if e = of_char (CHR ''n'') then Inr (Literal 10)
      else if is_ascii_letter e \<or> is_digit e then Inl Unmodelled_syntax
      else Inr (Literal e))"

text \<open>
  The parser reads the pattern from left to right. \<open>stack\<close> holds, for every group that
  is still open, its number and the items read before it; \<open>items\<close> holds the items of
  the innermost open sequence, last first; \<open>groups\<close> counts the groups opened so far.
  \<open>parse_set\<close> reads the inside of a character set. The errors of Python's parser that
  the fragment can meet are: a backslash at the end of the pattern, an unbalanced
  parenthesis, an unterminated subpattern, an unterminated character set, nothing to
  repeat, and a multiple repeat.
\<close>

fun parse :: "str \<Rightarrow> (nat \<times> node list) list \<Rightarrow> node list \<Rightarrow> nat \<Rightarrow> error + node list \<times> nat"
  and parse_set :: "str \<Rightarrow> bool \<Rightarrow> member list \<Rightarrow> (nat \<times> node list) list \<Rightarrow> node list \<Rightarrow> nat
    \<Rightarrow> error + node list \<times> nat"
where
  "parse [] stack items groups =
     (case stack of [] \<Rightarrow> Inr (rev items, groups) | _ # _ \<Rightarrow> Inl PatternError)"
| "parse (c # cs) stack items groups =
     (if c = 92 then
        (case cs of
           [] \<Rightarrow> Inl PatternError
         | e # cs' \<Rightarrow>
             (case escape e of
                Inl err \<Rightarrow> Inl err
              | Inr m \<Rightarrow> parse cs' stack (Atom (Single m) # items) groups))
      else if c = of_char (CHR ''['') then
        (case cs of
           [] \<Rightarrow> Inl PatternError
         | d # cs' \<Rightarrow>
             if d = of_char (CHR ''^'') then parse_set cs' True [] stack items groups
             else parse_set (d # cs') False [] stack items groups)
      else if c = of_char (CHR ''('') then
        (case cs of
           [] \<Rightarrow> Inl PatternError
         | d # cs' \<Rightarrow>
             if d = of_char (CHR ''?'') then Inl Unmodelled_syntax
             else parse (d # cs') ((Suc groups, items) # stack) [] (Suc groups))
      else if c = of_char (CHR '')'') then
        (case stack of
           [] \<Rightarrow> Inl PatternError
         | (g, outer) # stack' \<Rightarrow> parse cs stack' (Subpattern g (rev items) # outer) groups)
      else if c = of_char (CHR ''*'') \<or> c = of_char (CHR ''+'') then
        (case items of
           [] \<Rightarrow> Inl PatternError
         | Atom a # items' \<Rightarrow>
             (case cs of
                [] \<Rightarrow> parse [] stack
                  (Max_repeat (if c = of_char (CHR ''+'') then 1 else 0) a # items') groups
              | d # cs' \<Rightarrow>
                  if d = of_char (CHR ''?'') \<or> d = of_char (CHR ''+'') then Inl Unmodelled_syntax
                  else parse (d # cs') stack
                    (Max_repeat (if c = of_char (CHR ''+'') then 1 else 0) a # items') groups)
         | Max_repeat _ _ # _ \<Rightarrow> Inl PatternError
         | Subpattern _ _ # _ \<Rightarrow> Inl Unmodelled_syntax)
      else if c = of_char (CHR ''.'') \<or> c = of_char (CHR ''^'') \<or> c = of_char (CHR ''$'') \<or>
              c = of_char (CHR ''?'') \<or> c = of_char (CHR ''{'') \<or> c = of_char (CHR ''|'') then
        Inl Unmodelled_syntax
      else parse cs stack (Atom (Single (Literal c)) # items) groups)"
| "parse_set [] negate ms stack items groups = Inl PatternError"
| "parse_set (c # cs) negate ms stack items groups =
     (if c = of_char (CHR '']'') \<and> ms \<noteq> [] then
        parse cs stack (Atom (In_set negate (rev ms)) # items) groups
      else if c = 92 then
        (case cs of
           [] \<Rightarrow> Inl PatternError
         | e # cs' \<Rightarrow>
             (case escape e of
                Inl err \<Rightarrow> Inl err
              | Inr m \<Rightarrow> parse_set cs' negate (m # ms) stack items groups))
      else if c = of_char (CHR ''-'') \<or> c = of_char (CHR ''['') then Inl Unmodelled_syntax
      else parse_set cs negate (Literal c # ms) stack items groups)"

text \<open>\<^verbatim>\<open>re.compile\<close>: the parsed pattern and the number of its groups.\<close>

definition re_compile :: "str \<Rightarrow> error + node list \<times> nat" where
  "re_compile pattern = parse pattern [] [] 0"

subsection \<open>Matching\<close>

text \<open>
  The matcher of \<^verbatim>\<open>re\<close> backtracks. \<open>match_seq p s marks\<close> lists every way in which \<open>p\<close>
  matches a prefix of \<open>s\<close>, in the order in which the backtracking engine tries them:
  each entry is the text left after the match and the group marks. A greedy repeat of
  a one-character item tries the longest run first and gives characters back one at a
  time, down to its minimum count.
\<close>

type_synonym marks = "nat \<rightharpoonup> str"

fun match_node :: "node \<Rightarrow> str \<Rightarrow> marks \<Rightarrow> (str \<times> marks) list"
  and match_seq :: "node list \<Rightarrow> str \<Rightarrow> marks \<Rightarrow> (str \<times> marks) list"
where
  "match_node (Atom a) s marks =
     (case s of [] \<Rightarrow> [] | c # cs \<Rightarrow> if atom_ok a c then [(cs, marks)] else [])"
| "match_node (Max_repeat n a) s marks =
     map (\<lambda>k. (drop k s, marks)) (rev [n..<Suc (length (takeWhile (atom_ok a) s))])"
| "match_node (Subpattern g p) s marks =
     map (\<lambda>(s', marks'). (s', marks'(g \<mapsto> take (length s - length s') s)))
       (match_seq p s marks)"
| "match_seq [] s marks = [(s, marks)]"
| "match_seq (n # p) s marks =
     concat (map (\<lambda>(s', marks'). match_seq p s' marks') (match_node n s marks))"

text \<open>
  One match attempt at the start of \<open>s\<close>: the first way the engine finds. With
  \<open>must_advance\<close> set (the previous match was empty and ended here) an empty match is
  rejected and the engine backtracks to the next way.
\<close>

definition match_at :: "node list \<Rightarrow> bool \<Rightarrow> str \<Rightarrow> (str \<times> marks) option" where
  "match_at p must_advance s =
     find (\<lambda>(s', marks). \<not> must_advance \<or> s' \<noteq> s) (match_seq p s Map.empty)"

subsection \<open>Replacement templates\<close>

text \<open>
  \<^verbatim>\<open>parse_template\<close>: a replacement is literal text and group references. \<^verbatim>\<open>\1\<close> to
  \<^verbatim>\<open>\9\<close> refer to a group (an error when the pattern has no such group), \<^verbatim>\<open>\n\<close> is a
  newline, \<^verbatim>\<open>\\\<close> a backslash, and a backslash before a character that is no ASCII
  letter or digit stays as it is, with that character. A backslash at the end is an
  error. The other escapes are outside the fragment.
\<close>

datatype tpart = TLiteral nat | TGroup nat

fun parse_template :: "nat \<Rightarrow> str \<Rightarrow> error + tpart list" where
  "parse_template groups [] = Inr []"
| "parse_template groups (c # cs) =
     (if c \<noteq> 92 then map_sum id (Cons (TLiteral c)) (parse_template groups cs)
      else
        (case cs of
           [] \<Rightarrow> Inl PatternError
         | e # cs' \<Rightarrow>
             if e = of_char (CHR ''n'') then
               map_sum id (Cons (TLiteral 10)) (parse_template groups cs')
             else if e = 92 then
               map_sum id (Cons (TLiteral 92)) (parse_template groups cs')
             else if is_digit e then
               (if e = of_char (CHR ''0'') then Inl Unmodelled_syntax
                else
                  (case cs' of
                     [] \<Rightarrow> if e - 48 \<le> groups then Inr [TGroup (e - 48)] else Inl PatternError
                   | d # _ \<Rightarrow>
                       if is_digit d then Inl Unmodelled_syntax
                       else if e - 48 \<le> groups then
                         map_sum id (Cons (TGroup (e - 48))) (parse_template groups cs')
                       else Inl PatternError))
             else if is_ascii_letter e then Inl Unmodelled_syntax
             else map_sum id (\<lambda>t. TLiteral 92 # TLiteral e # t) (parse_template groups cs')))"

text \<open>A group that took no part in the match expands to the empty string.\<close>

fun expand_part :: "marks \<Rightarrow> tpart \<Rightarrow> str" where
  "expand_part marks (TLiteral c) = [c]"
| "expand_part marks (TGroup g) = (case marks g of None \<Rightarrow> [] | Some w \<Rightarrow> w)"

definition expand_template :: "tpart list \<Rightarrow> marks \<Rightarrow> str" where
  "expand_template t marks = concat (map (expand_part marks) t)"

subsection \<open>Substitution\<close>

text \<open>
  \<^verbatim>\<open>pattern_subx\<close>, the loop behind \<^verbatim>\<open>re.sub\<close> (as of Python 3.7): search for the next
  match from the current position; copy the text skipped on the way, then the expanded
  replacement; go on after the match. After an empty match the next search starts at
  the same position and must advance. The text after the last match is copied as it
  is. \<open>s\<close> is the text from the current position on.
\<close>

function pattern_subx :: "node list \<Rightarrow> tpart list \<Rightarrow> bool \<Rightarrow> str \<Rightarrow> str" where
  "pattern_subx p t must_advance s =
     (case match_at p must_advance s of
        Some (s', marks) \<Rightarrow> expand_template t marks @ pattern_subx p t (s' = s) s'
      | None \<Rightarrow> (case s of [] \<Rightarrow> [] | c # cs \<Rightarrow> c # pattern_subx p t False cs))"
  by pat_completeness auto

lemma match_suffix:
  "(s', marks') \<in> set (match_node n s marks) \<Longrightarrow> \<exists>w. s = w @ s'"
  "(s', marks') \<in> set (match_seq p s marks) \<Longrightarrow> \<exists>w. s = w @ s'"
proof (induction n s marks and p s marks arbitrary: s' marks' and s' marks'
    rule: match_node_match_seq.induct)
  case (1 a s marks)
  then show ?case by (auto split: list.splits if_splits)
next
  case (2 n a s marks)
  then obtain k where "s' = drop k s" by auto
  then have "s = take k s @ s'" by simp
  then show ?case by blast
next
  case (3 g p s marks)
  then show ?case by auto
next
  case (4 s marks)
  then show ?case by simp
next
  case (5 n p s marks)
  from "5.prems" obtain s1 marks1 where
    a: "(s1, marks1) \<in> set (match_node n s marks)" and
    b: "(s', marks') \<in> set (match_seq p s1 marks1)"
    by auto
  from "5.IH"(1) [OF a] obtain u where u: "s = u @ s1" by blast
  from "5.IH"(2) [OF a refl b] obtain v where v: "s1 = v @ s'" by blast
  from u v have "s = (u @ v) @ s'" by simp
  then show ?case by blast
qed

lemma match_at_suffix: "match_at p must_advance s = Some (s', marks') \<Longrightarrow> \<exists>w. s = w @ s'"
  unfolding match_at_def find_Some_iff by (metis match_suffix(2) nth_mem)

lemma match_at_advances:
  "match_at p True s = Some (s', marks') \<Longrightarrow> s' \<noteq> s"
  unfolding match_at_def find_Some_iff by auto

termination pattern_subx
proof (relation "measure (\<lambda>(p, t, must_advance, s). 2 * length s + (if must_advance then 0 else 1))")
  show "wf (measure (\<lambda>(p :: node list, t :: tpart list, must_advance, s :: str).
      2 * length s + (if must_advance then 0 else 1)))"
    by simp
next
  fix p :: "node list" and t :: "tpart list" and must_advance s x2 s' marks
  assume a: "match_at p must_advance s = Some x2" and b: "(s', marks) = x2"
  from a b have m: "match_at p must_advance s = Some (s', marks)" by simp
  from match_at_suffix [OF m] obtain w where w: "s = w @ s'" by blast
  show "((p, t, s' = s, s'), (p, t, must_advance, s))
      \<in> measure (\<lambda>(p, t, must_advance, s). 2 * length s + (if must_advance then 0 else 1))"
  proof (cases "s' = s")
    case True
    with m match_at_advances have "\<not> must_advance" by (cases must_advance) auto
    with True show ?thesis by simp
  next
    case False
    with w have "w \<noteq> []" by auto
    with w have "length s' < length s" by (cases w) auto
    with False show ?thesis by auto
  qed
next
  fix p :: "node list" and t :: "tpart list" and must_advance and s :: str and c cs
  assume "s = c # cs"
  then show "((p, t, False, cs), (p, t, must_advance, s))
      \<in> measure (\<lambda>(p, t, must_advance, s). 2 * length s + (if must_advance then 0 else 1))"
    by simp
qed

declare pattern_subx.simps [simp del]

text \<open>
  \<^verbatim>\<open>re.sub(pattern, repl, string)\<close>: compile the pattern, then the replacement, then
  substitute. Both compilations come before the search, so a malformed replacement is
  an error even where the pattern has no match. The flag \<^verbatim>\<open>re.MULTILINE\<close> that
  \<^verbatim>\<open>fix_syntax_errors.py\<close> passes changes the anchors \<^verbatim>\<open>^\<close> and \<^verbatim>\<open>$\<close> only, which are
  outside the fragment and which no pattern of the scripts uses.
\<close>

definition re_sub :: "str \<Rightarrow> str \<Rightarrow> str \<Rightarrow> error + str" where
  "re_sub pattern repl string =
     (case re_compile pattern of
        Inl e \<Rightarrow> Inl e
      | Inr (p, groups) \<Rightarrow>
          (case parse_template groups repl of
             Inl e \<Rightarrow> Inl e
           | Inr t \<Rightarrow> Inr (pattern_subx p t False string)))"

section \<open>The file system\<close>

text \<open>
  Both scripts open the target with \<^verbatim>\<open>open(path, 'r')\<close> and \<^verbatim>\<open>open(path, 'w')\<close>: text mode,
  default encoding (UTF-8, as the specification assumes), default newline handling.
  A stored file is modelled by the code points its bytes decode to (\<open>None\<close> when they
  do not decode) and by whether the process may read and write it. UTF-8 has no bytes
  for a surrogate or for a value above U+10FFFF, so a stored text that holds one
  stands for bytes that do not decode, and a text to be written that holds one cannot
  be encoded.
\<close>

record stored_file =
  decoded :: "str option"
  readable :: bool
  writable :: bool

record world =
  files :: "string \<rightharpoonup> stored_file"
  stdout :: "str list"

definition encodable :: "nat \<Rightarrow> bool" where
  "encodable c \<longleftrightarrow> c < 55296 \<or> (57343 < c \<and> c < 1114112)"

text \<open>
  Reading in text mode translates the line endings \<^verbatim>\<open>\r\n\<close> and \<^verbatim>\<open>\r\<close> to \<^verbatim>\<open>\n\<close>
  (universal newlines).
\<close>

fun universal_newlines :: "str \<Rightarrow> str" where
  "universal_newlines [] = []"
| "universal_newlines (c # cs) =
     (if c = 13 then
        (case cs of
           [] \<Rightarrow> [10]
         | d # cs' \<Rightarrow>
             if d = 10 then 10 # universal_newlines cs' else 10 # universal_newlines (d # cs'))
      else c # universal_newlines cs)"

text \<open>\<^verbatim>\<open>with open(path, 'r') as f: content = f.read()\<close>\<close>

definition read_text :: "string \<Rightarrow> world \<Rightarrow> (error + str) \<times> world" where
  "read_text path w =
     (case files w path of
        None \<Rightarrow> (Inl NotFoundError, w)
      | Some f \<Rightarrow>
          if \<not> readable f then (Inl PermissionError, w)
          else
            (case decoded f of
               None \<Rightarrow> (Inl EncodingError, w)
             | Some s \<Rightarrow>
                 if list_all encodable s then (Inr (universal_newlines s), w)
                 else (Inl EncodingError, w)))"

text \<open>
  \<^verbatim>\<open>open(path, 'w')\<close> fails, before the file is touched, when writing is not permitted.
  Otherwise it empties the file, or creates it when there is none.
\<close>

definition open_for_writing :: "string \<Rightarrow> world \<Rightarrow> (error + stored_file) \<times> world" where
  "open_for_writing path w =
     (case files w path of
        None \<Rightarrow>
          (Inr \<lparr>decoded = Some [], readable = True, writable = True\<rparr>,
           w\<lparr>files := (files w)(path \<mapsto> \<lparr>decoded = Some [], readable = True, writable = True\<rparr>)\<rparr>)
      | Some f \<Rightarrow>
          if \<not> writable f then (Inl PermissionError, w)
          else (Inr (f\<lparr>decoded := Some []\<rparr>), w\<lparr>files := (files w)(path \<mapsto> f\<lparr>decoded := Some []\<rparr>)\<rparr>))"

text \<open>
  \<^verbatim>\<open>with open(path, 'w') as f: f.write(content)\<close>. The text is encoded when it is
  written: a text that cannot be encoded raises the error after the file has been
  emptied. On the platform of the scripts' hard-coded path (\<^verbatim>\<open>/Users/...\<close>, where
  \<^verbatim>\<open>os.linesep\<close> is \<^verbatim>\<open>\n\<close>) the text is stored as it is given. An I/O failure in the
  middle of a write is not modelled.
\<close>

definition write_text :: "string \<Rightarrow> str \<Rightarrow> world \<Rightarrow> (error + unit) \<times> world" where
  "write_text path content w =
     (case open_for_writing path w of
        (Inl e, w1) \<Rightarrow> (Inl e, w1)
      | (Inr f, w1) \<Rightarrow>
          if list_all encodable content then
            (Inr (), w1\<lparr>files := (files w1)(path \<mapsto> f\<lparr>decoded := Some content\<rparr>)\<rparr>)
          else (Inl EncodingError, w1))"

definition print :: "str \<Rightarrow> world \<Rightarrow> world" where
  "print line w = w\<lparr>stdout := stdout w @ [line]\<rparr>"

section \<open>The scripts\<close>

text \<open>
  The loop of \<^verbatim>\<open>fix_syntax_errors.py\<close>:
  \<^verbatim>\<open>for pattern, replacement in fixes: content = re.sub(pattern, replacement, content, flags=re.MULTILINE)\<close>.
  An exception of \<^verbatim>\<open>re.sub\<close> ends the loop and the script.
\<close>

fun apply_fixes :: "(str \<times> str) list \<Rightarrow> str \<Rightarrow> error + str" where
  "apply_fixes [] content = Inr content"
| "apply_fixes ((pattern, replacement) # fixes) content =
     (case re_sub pattern replacement content of
        Inl e \<Rightarrow> Inl e
      | Inr content' \<Rightarrow> apply_fixes fixes content')"

text \<open>
  The body of \<^verbatim>\<open>fix_syntax_errors.py\<close> with its three constants (the path, the rule
  list and the final message) as parameters: read, substitute rule by rule, write
  back, print. This is the operation the specification calls \<^verbatim>\<open>patch\<close>. The result is
  the error that ended the run, if any, and the world the run leaves behind.
\<close>

definition patch :: "string \<Rightarrow> (str \<times> str) list \<Rightarrow> str \<Rightarrow> world \<Rightarrow> error option \<times> world" where
  "patch path fixes message w =
     (case read_text path w of
        (Inl e, w1) \<Rightarrow> (Some e, w1)
      | (Inr content, w1) \<Rightarrow>
          (case apply_fixes fixes content of
             Inl e \<Rightarrow> (Some e, w1)
           | Inr content' \<Rightarrow>
               (case write_text path content' w1 of
                  (Inl e, w2) \<Rightarrow> (Some e, w2)
                | (Inr _, w2) \<Rightarrow> (None, print message w2))))"

definition target :: string where
  "target = ''/Users/delaghetto/Documents/Projects/demo/src/components/unified-page-editor.tsx''"

text \<open>The rule list \<^verbatim>\<open>fixes\<close> of \<^verbatim>\<open>fix_syntax_errors.py\<close>, in its order.\<close>

definition fixes_list :: "(str \<times> str) list" where
  "fixes_list =
    [(raw ''insertContent~(~'([^~']+)~'~n~.run~(~);'', raw ''insertContent('~1').run();''),
     (raw ''insertContent~(~'([^~']+)~'~s+~.run~(~);'', raw ''insertContent('~1').run();''),
     (raw ''pagesQuery~.getPageById~(~s*~n'', raw ''pagesQuery.getPageById()~n''),
     (raw ''single document~s*~n'', raw ''single document)~n''),
     (raw ''direct TipTap~s*~n'', raw ''direct TipTap)~n''),
     (raw ''1/3 second~s*~n'', raw ''1/3 second)~n''),
     (raw ''300ms debounce~s*~n'', raw ''300ms debounce)~n''),
     (raw ''via provider~s*~n'', raw ''via provider)~n''),
     (raw ''~.toISOString~(~s*~n'', raw ''.toISOString()~n''),
     (raw ''~.toLowerCase~(~s*~n'', raw ''.toLowerCase())~n''),
     (raw ''item~.title~s*~n~s*~);'', raw ''item.title)''),
     (raw ''~.includes~(item~.title~s*~n~s*~);'', raw ''.includes(item.title)''),
     (raw ''lang~.name~`~s*~n'', raw ''lang.name}`)''),
     (raw ''!editor~.isActive~(~'table~'~s*~n'', raw ''!editor.isActive('table')'')]"

definition fix_syntax_errors :: "world \<Rightarrow> error option \<times> world" where
  "fix_syntax_errors = patch target fixes_list (plain ''Fixed syntax errors!'')"

text \<open>\<^verbatim>\<open>fix_all_glossary.py\<close>: one rule, one call of \<^verbatim>\<open>re.sub\<close> without flags.\<close>

definition pattern :: str where
  \<open>pattern = raw ''editor~.chain~(~)~.focus~(~)~.deleteRange~(range~)~.insertContent~(~s*[~'"]<span[^>]*>([^<]+)<~/span>[~'"]''\<close>

definition replacement :: str where
  "replacement = raw ''editor.chain().focus().deleteRange(range).insertContent('~1')''"

definition fix_all_glossary :: "world \<Rightarrow> error option \<times> world" where
  "fix_all_glossary w =
     (case read_text target w of
        (Inl e, w1) \<Rightarrow> (Some e, w1)
      | (Inr content, w1) \<Rightarrow>
          (case re_sub pattern replacement content of
             Inl e \<Rightarrow> (Some e, w1)
           | Inr fixed_content \<Rightarrow>
               (case write_text target fixed_content w1 of
                  (Inl e, w2) \<Rightarrow> (Some e, w2)
                | (Inr _, w2) \<Rightarrow> (None, print (plain ''Fixed all glossary terms!'') w2))))"

section \<open>Notions used in the statements\<close>

text \<open>A rule compiled: its pattern, then its replacement against the pattern's groups.\<close>

definition compile_rule :: "str \<times> str \<Rightarrow> error + node list \<times> tpart list" where
  "compile_rule rule =
     (case re_compile (fst rule) of
        Inl e \<Rightarrow> Inl e
      | Inr (p, groups) \<Rightarrow>
          (case parse_template groups (snd rule) of
             Inl e \<Rightarrow> Inl e
           | Inr t \<Rightarrow> Inr (p, t)))"

text \<open>
  \<open>search p s\<close>: the engine finds a match of \<open>p\<close> starting somewhere in \<open>s\<close> (the end of
  \<open>s\<close> included, where only an empty match can start), as \<^verbatim>\<open>re.search\<close> would.
\<close>

fun search :: "node list \<Rightarrow> str \<Rightarrow> bool" where
  "search p [] = (match_at p False [] \<noteq> None)"
| "search p (c # cs) = (match_at p False (c # cs) \<noteq> None \<or> search p cs)"

text \<open>\<open>found pat s\<close>: the pattern \<open>pat\<close> is well formed and has a match in \<open>s\<close>.\<close>

definition found :: "str \<Rightarrow> str \<Rightarrow> bool" where
  "found pat s = (case re_compile pat of Inl e \<Rightarrow> False | Inr (p, groups) \<Rightarrow> search p s)"

text \<open>\<open>unmatched rule s\<close>: the rule is well formed and its pattern has no match in \<open>s\<close>.\<close>

definition unmatched :: "str \<times> str \<Rightarrow> str \<Rightarrow> bool" where
  "unmatched rule s = (case compile_rule rule of Inl e \<Rightarrow> False | Inr (p, t) \<Rightarrow> \<not> search p s)"

text \<open>
  The words a pattern stands for, stated without the engine: \<open>accepts_seq p w marks marks'\<close>
  holds when \<open>p\<close> matches exactly the text \<open>w\<close>, turning the group marks \<open>marks\<close> into
  \<open>marks'\<close>.
\<close>

inductive accepts_node :: "node \<Rightarrow> str \<Rightarrow> marks \<Rightarrow> marks \<Rightarrow> bool"
  and accepts_seq :: "node list \<Rightarrow> str \<Rightarrow> marks \<Rightarrow> marks \<Rightarrow> bool"
where
  accepts_Atom: "atom_ok a c \<Longrightarrow> accepts_node (Atom a) [c] marks marks"
| accepts_Max_repeat:
    "n \<le> length w \<Longrightarrow> list_all (atom_ok a) w \<Longrightarrow> accepts_node (Max_repeat n a) w marks marks"
| accepts_Subpattern:
    "accepts_seq p w marks marks' \<Longrightarrow> accepts_node (Subpattern g p) w marks (marks'(g \<mapsto> w))"
| accepts_Nil: "accepts_seq [] [] marks marks"
| accepts_Cons:
    "accepts_node n u marks marks1 \<Longrightarrow> accepts_seq p v marks1 marks2
     \<Longrightarrow> accepts_seq (n # p) (u @ v) marks marks2"

text \<open>
  A global replacement, in the words of the specification: the text \<open>s\<close> is cut, from
  left to right, into pieces that do not overlap. Each piece is a gap followed by a
  match of the pattern; \<open>tail\<close> is what follows the last match. \<open>out\<close> is \<open>s\<close> with every
  match replaced by the replacement expanded for that match, the gaps and the tail
  standing as they are and in their order.
\<close>

definition replaces_matches :: "node list \<Rightarrow> tpart list \<Rightarrow> str \<Rightarrow> str \<Rightarrow> bool" where
  "replaces_matches p t s out \<longleftrightarrow>
     (\<exists>pieces tail.
        s = concat (map (\<lambda>(gap, m, marks). gap @ m) pieces) @ tail \<and>
        out = concat (map (\<lambda>(gap, m, marks). gap @ expand_template t marks) pieces) @ tail \<and>
        list_all (\<lambda>(gap, m, marks). accepts_seq p m Map.empty marks) pieces)"

text \<open>The world after \<open>content\<close> has been written to the file \<open>f\<close> stored at \<open>path\<close>.\<close>

definition written :: "string \<Rightarrow> stored_file \<Rightarrow> str \<Rightarrow> world \<Rightarrow> world" where
  "written path f content w = w\<lparr>files := (files w)(path \<mapsto> f\<lparr>decoded := Some content\<rparr>)\<rparr>"

text \<open>
  Which matches are replaced: reading the text from left to right, a match of the
  pattern that starts at the current position is replaced by the replacement expanded
  for it, and reading goes on behind the match; a character is copied, and reading
  goes on behind it, only where no match that is not empty starts.
\<close>

inductive global_replacement :: "node list \<Rightarrow> tpart list \<Rightarrow> str \<Rightarrow> str \<Rightarrow> bool"
  for p :: "node list" and t :: "tpart list"
where
  global_end: "global_replacement p t [] []"
| global_copy:
    "\<forall>w marks x. w \<noteq> [] \<and> c # s = w @ x \<longrightarrow> \<not> accepts_seq p w Map.empty marks \<Longrightarrow>
     global_replacement p t s out \<Longrightarrow> global_replacement p t (c # s) (c # out)"
| global_replace:
    "accepts_seq p w Map.empty marks \<Longrightarrow> global_replacement p t s out \<Longrightarrow>
     global_replacement p t (w @ s) (expand_template t marks @ out)"

text \<open>
  Sequential application, in the words of the specification: the compiled rules are
  applied in their order, each as a global replacement on the output of the one
  before.
\<close>

inductive applied_in_order :: "(node list \<times> tpart list) list \<Rightarrow> str \<Rightarrow> str \<Rightarrow> bool" where
  applied_Nil: "applied_in_order [] s s"
| applied_Cons:
    "global_replacement p t s s1 \<Longrightarrow> applied_in_order rules s1 s2
     \<Longrightarrow> applied_in_order ((p, t) # rules) s s2"

text \<open>The pattern that matches exactly the text \<open>l\<close>, character by character.\<close>

definition literals :: "str \<Rightarrow> node list" where
  "literals l = map (\<lambda>c. Atom (Single (Literal c))) l"

text \<open>
  The text every match of the glossary pattern starts with, and the statement that it
  starts nowhere in \<open>pre\<close> when \<open>pre\<close> is followed by it: \<open>no_start l pre\<close> says that the
  occurrence of \<open>l\<close> after \<open>pre\<close> is the first one.
\<close>

definition call_prefix :: str where
  "call_prefix = plain ''editor.chain().focus().deleteRange(range).insertContent(''"

definition starts_with :: "str \<Rightarrow> str \<Rightarrow> bool" where
  "starts_with l s = (take (length l) s = l)"

fun no_start :: "str \<Rightarrow> str \<Rightarrow> bool" where
  "no_start l [] = True"
| "no_start l (c # cs) = (\<not> starts_with l (c # cs @ l) \<and> no_start l cs)"

text \<open>Group marks and replacement templates that hold encodable text only.\<close>

definition marks_encodable :: "marks \<Rightarrow> bool" where
  "marks_encodable marks = (\<forall>g w. marks g = Some w \<longrightarrow> list_all encodable w)"

definition template_encodable :: "tpart list \<Rightarrow> bool" where
  "template_encodable t = (\<forall>c. TLiteral c \<in> set t \<longrightarrow> encodable c)"

text \<open>
  \<open>modelled rule\<close>: the rule is written in the fragment modelled here, so that it either
  compiles or is malformed (\<^verbatim>\<open>re.error\<close>).
\<close>

definition modelled :: "str \<times> str \<Rightarrow> bool" where
  "modelled rule = (case compile_rule rule of Inl e \<Rightarrow> e = PatternError | Inr c \<Rightarrow> True)"

text \<open>The literal character a pattern starts with, if it starts with one.\<close>

fun first_literal :: "node list \<Rightarrow> nat option" where
  "first_literal (Atom (Single (Literal c)) # p) = Some c"
| "first_literal _ = None"

text \<open>Example worlds for the statements below: one file, readable and writable.\<close>

definition stored :: "str \<Rightarrow> stored_file" where
  "stored s = \<lparr>decoded = Some s, readable = True, writable = True\<rparr>"

definition world_with :: "string \<Rightarrow> stored_file \<Rightarrow> world" where
  "world_with path f = \<lparr>files = [path \<mapsto> f], stdout = []\<rparr>"

definition no_files :: world where
  "no_files = \<lparr>files = Map.empty, stdout = []\<rparr>"

section \<open>Evaluation\<close>

lemmas eval_defs = re_sub_def re_compile_def raw_def plain_def escape_def is_ascii_letter_def
  is_digit_def is_space_def pattern_subx.simps match_at_def expand_template_def

lemmas world_defs = patch_def read_text_def open_for_writing_def write_text_def print_def
  encodable_def

section \<open>Concrete scenarios\<close>

text \<open>
  Claim C3. The first rule of \<^verbatim>\<open>fixes\<close>, applied to the text
  \<^verbatim>\<open>insertContent('X'\<close>, newline, \<^verbatim>\<open>.run();\<close>, gives exactly \<^verbatim>\<open>insertContent('X').run();\<close>.
\<close>

theorem first_rule_scenario:
  "hd fixes_list =
     (raw ''insertContent~(~'([^~']+)~'~n~.run~(~);'', raw ''insertContent('~1').run();'') \<and>
   re_sub (raw ''insertContent~(~'([^~']+)~'~n~.run~(~);'') (raw ''insertContent('~1').run();'')
     (lit ''insertContent('X'~n.run();'') = Inr (lit ''insertContent('X').run();'')"
  by (simp add: fixes_list_def eval_defs)

text \<open>
  Claim C7. Rule application does not commute. The rules \<^verbatim>\<open>a\<close> to \<^verbatim>\<open>b\<close> and \<^verbatim>\<open>b\<close> to \<^verbatim>\<open>a\<close>
  each have a pattern that matches the text the other one's replacement produces, and
  on the input \<^verbatim>\<open>a\<close> the two orders give different results.
\<close>

theorem rule_order_matters:
  "found (raw ''a'') (plain ''a'') \<and> found (raw ''b'') (plain ''b'') \<and>
   apply_fixes [(raw ''a'', raw ''b''), (raw ''b'', raw ''a'')] (plain ''a'') = Inr (plain ''a'') \<and>
   apply_fixes [(raw ''b'', raw ''a''), (raw ''a'', raw ''b'')] (plain ''a'') = Inr (plain ''b'') \<and>
   plain ''a'' \<noteq> plain ''b''"
  by (simp add: found_def eval_defs)

section \<open>The empty rule list\<close>

lemma universal_newlines_encodable:
  "list_all encodable s \<Longrightarrow> list_all encodable (universal_newlines s)"
proof (induction s rule: universal_newlines.induct)
  case 1
  then show ?case by simp
next
  case (2 c cs)
  have n: "encodable 10" by (simp add: encodable_def)
  show ?case
  proof (cases "c = 13")
    case False
    with 2 show ?thesis by simp
  next
    case True
    show ?thesis
    proof (cases cs)
      case Nil
      with True n show ?thesis by simp
    next
      case (Cons d cs')
      show ?thesis
      proof (cases "d = 10")
        case d: True
        from "2.IH"(1) [OF True Cons d] "2.prems" Cons
        have "list_all encodable (universal_newlines cs')" by simp
        with True Cons d n show ?thesis by simp
      next
        case d: False
        from "2.IH"(2) [OF True Cons d] "2.prems" Cons
        have "list_all encodable (universal_newlines (d # cs'))" by simp
        moreover have "universal_newlines (c # cs) = 10 # universal_newlines (d # cs')"
          using True Cons d
          by (subst universal_newlines.simps) (simp del: universal_newlines.simps)
        ultimately show ?thesis using n by simp
      qed
    qed
  qed
qed

text \<open>What a read returns can be written back.\<close>

lemma read_text_encodable:
  "fst (read_text path w) = Inr content \<Longrightarrow> list_all encodable content"
  by (auto simp: read_text_def universal_newlines_encodable split: option.splits if_splits)

lemma read_text_world: "snd (read_text path w) = w"
  by (simp add: read_text_def split: option.splits)

lemma write_text_ok:
  "files w path = Some f \<Longrightarrow> writable f \<Longrightarrow> list_all encodable content \<Longrightarrow>
   write_text path content w = (Inr (), written path f content w)"
  by (simp add: write_text_def open_for_writing_def written_def)

lemma patch_ok:
  assumes "fst (read_text path w) = Inr content" and "apply_fixes rules content = Inr content'"
    and "files w path = Some f" and "writable f" and "list_all encodable content'"
  shows "patch path rules message w = (None, print message (written path f content' w))"
proof -
  from assms(1) read_text_world [of path w] have "read_text path w = (Inr content, w)"
    by (cases "read_text path w") simp
  with assms(2) write_text_ok [OF assms(3-5)] show ?thesis by (simp add: patch_def)
qed

text \<open>
  Reading a text translates its carriage returns away: what a read returns holds none,
  and it is the stored text exactly when the stored text holds none.
\<close>

lemma universal_newlines_set:
  "set (universal_newlines s) \<subseteq> insert 10 (set s - {13})"
proof (induction s rule: universal_newlines.induct)
  case 1
  then show ?case by simp
next
  case (2 c cs)
  show ?case
  proof (cases "c = 13")
    case False
    with 2 show ?thesis by auto
  next
    case True
    show ?thesis
    proof (cases cs)
      case Nil
      with True show ?thesis by simp
    next
      case (Cons d cs')
      show ?thesis
      proof (cases "d = 10")
        case d: True
        from "2.IH"(1) [OF True Cons d]
        have "set (universal_newlines cs') \<subseteq> insert 10 (set cs' - {13})" .
        moreover have "universal_newlines (c # cs) = 10 # universal_newlines cs'"
          using True Cons d by simp
        ultimately show ?thesis using Cons by auto
      next
        case d: False
        from "2.IH"(2) [OF True Cons d]
        have "set (universal_newlines (d # cs')) \<subseteq> insert 10 (set (d # cs') - {13})" .
        moreover have "universal_newlines (c # cs) = 10 # universal_newlines (d # cs')"
          using True Cons d
          by (subst universal_newlines.simps) (simp del: universal_newlines.simps)
        ultimately show ?thesis using Cons by auto
      qed
    qed
  qed
qed

lemma universal_newlines_id: "13 \<notin> set s \<Longrightarrow> universal_newlines s = s"
  by (induction s) auto

lemma universal_newlines_fixed: "universal_newlines s = s \<longleftrightarrow> 13 \<notin> set s"
proof
  assume "universal_newlines s = s"
  with universal_newlines_set [of s] show "13 \<notin> set s" by auto
qed (rule universal_newlines_id)

lemma universal_newlines_space:
  assumes "list_all is_space s"
  shows "list_all is_space (universal_newlines s)"
proof -
  have "is_space 10" by (simp add: is_space_def)
  with assms universal_newlines_set [of s] show ?thesis
    unfolding list_all_iff by auto
qed

lemma read_text_stored:
  "files w path = Some f \<Longrightarrow> readable f \<Longrightarrow> decoded f = Some s \<Longrightarrow> list_all encodable s \<Longrightarrow>
   read_text path w = (Inr (universal_newlines s), w)"
  by (simp add: read_text_def)

lemma written_same:
  assumes "files w path = Some f" and "decoded f = Some s"
  shows "written path f c w = w \<longleftrightarrow> c = s"
proof
  assume a: "written path f c w = w"
  have "files (written path f c w) path = Some (f\<lparr>decoded := Some c\<rparr>)"
    by (simp add: written_def)
  with a assms(1) have "f\<lparr>decoded := Some c\<rparr> = f" by simp
  then have "decoded (f\<lparr>decoded := Some c\<rparr>) = decoded f" by (rule arg_cong)
  with assms(2) show "c = s" by simp
next
  assume "c = s"
  with assms have "f\<lparr>decoded := Some c\<rparr> = f" by simp
  with assms(1) show "written path f c w = w" by (simp add: written_def fun_upd_idem)
qed

lemma patch_loaded:
  assumes "files w path = Some f" and "readable f" and "writable f"
    and "decoded f = Some s" and "list_all encodable s"
    and "apply_fixes rules (universal_newlines s) = Inr (universal_newlines s)"
  shows "patch path rules message w =
    (None, print message (written path f (universal_newlines s) w))"
proof -
  from read_text_stored [OF assms(1,2,4,5)]
  have r: "fst (read_text path w) = Inr (universal_newlines s)" by simp
  from r assms(6,1,3) read_text_encodable [OF r] show ?thesis by (rule patch_ok)
qed

text \<open>
  Claim C5, as stated: with an empty rule list the content of the file is left
  byte-for-byte unchanged. The scripts open the file in text mode, and the read
  translates every line ending \<^verbatim>\<open>\r\n\<close> and \<^verbatim>\<open>\r\<close> to \<^verbatim>\<open>\n\<close> before the loop runs. The file
  that holds \<^verbatim>\<open>a\<close>, carriage return, line feed, \<^verbatim>\<open>b\<close> is rewritten as \<^verbatim>\<open>a\<close>, line feed, \<^verbatim>\<open>b\<close>,
  although there is no rule.
\<close>

theorem empty_rule_list_counterexample:
  "patch target [] (plain ''ok'') (world_with target (stored [97, 13, 10, 98])) =
     (None, \<lparr>files = [target \<mapsto> stored [97, 10, 98]], stdout = [plain ''ok'']\<rparr>) \<and>
   decoded (stored [97, 10, 98]) \<noteq> decoded (stored [97, 13, 10, 98])"
  by (simp add: world_defs stored_def world_with_def)

text \<open>
  Claim C5, amended. For a file the run may read and write and whose bytes decode to
  the text \<open>s\<close>, the run with an empty rule list succeeds and writes back the text as the
  read returned it: the loop over zero rules is the identity on the loaded text. The
  run leaves the file exactly as it found it if and only if \<open>s\<close> holds no carriage
  return; then nothing changes but the line printed.
\<close>

theorem patch_empty_rule_list:
  assumes "files w path = Some f" and "readable f" and "writable f"
    and "decoded f = Some s" and "list_all encodable s"
  shows "patch path [] message w =
      (None, print message (written path f (universal_newlines s) w)) \<and>
    (written path f (universal_newlines s) w = w \<longleftrightarrow> 13 \<notin> set s) \<and>
    (13 \<notin> set s \<longrightarrow> patch path [] message w = (None, print message w))"
proof -
  have 1: "patch path [] message w =
      (None, print message (written path f (universal_newlines s) w))"
    using assms by (rule patch_loaded) simp
  have 2: "written path f (universal_newlines s) w = w \<longleftrightarrow> 13 \<notin> set s"
    using written_same [OF assms(1,4)] universal_newlines_fixed by simp
  from 2 have 3: "written path f (universal_newlines s) w = w" if "13 \<notin> set s"
    using that by blast
  from 1 2 3 show ?thesis by auto
qed

theorem patch_empty_rule_list_witness:
  "files (world_with target (stored (lit ''a~nb''))) target = Some (stored (lit ''a~nb'')) \<and>
   13 \<notin> set (lit ''a~nb'') \<and>
   patch target [] (plain ''ok'') (world_with target (stored (lit ''a~nb''))) =
     (None, print (plain ''ok'') (world_with target (stored (lit ''a~nb'')))) \<and>
   patch target [] (plain ''ok'') (world_with target (stored [97, 13, 98])) =
     (None, print (plain ''ok'')
        (written target (stored [97, 13, 98]) [97, 10, 98] (world_with target (stored [97, 13, 98])))) \<and>
   written target (stored [97, 13, 98]) [97, 10, 98] (world_with target (stored [97, 13, 98])) \<noteq>
     world_with target (stored [97, 13, 98])"
  using patch_empty_rule_list [of "world_with target (stored (lit ''a~nb''))" target
      "stored (lit ''a~nb'')" "lit ''a~nb''" "plain ''ok''"]
    patch_empty_rule_list [of "world_with target (stored [97, 13, 98])" target
      "stored [97, 13, 98]" "[97, 13, 98]" "plain ''ok''"]
  by (simp add: stored_def world_with_def encodable_def)

section \<open>Failures\<close>

lemma glossary_is_patch:
  "fix_all_glossary = patch target [(pattern, replacement)] (plain ''Fixed all glossary terms!'')"
  by (rule ext) (auto simp: fix_all_glossary_def patch_def split: sum.splits prod.splits)

lemma patch_read_failure:
  "fst (read_text path w) = Inl e \<Longrightarrow> patch path rules message w = (Some e, w)"
  using read_text_world [of path w] by (cases "read_text path w") (simp add: patch_def)

lemma patch_rule_failure:
  "fst (read_text path w) = Inr content \<Longrightarrow> apply_fixes rules content = Inl e \<Longrightarrow>
   patch path rules message w = (Some e, w)"
  using read_text_world [of path w] by (cases "read_text path w") (simp add: patch_def)

lemma patch_not_writable:
  "files w path = Some f \<Longrightarrow> \<not> writable f \<Longrightarrow> snd (patch path rules message w) = w"
  using read_text_world [of path w]
  by (cases "read_text path w")
    (auto simp: patch_def write_text_def open_for_writing_def split: sum.splits)

text \<open>
  Claim C9. When the target file does not exist the run fails with \<open>NotFoundError\<close>.
  Whenever a run fails before the write step, nothing is written and nothing is
  printed, the world is as it was: that is a failure of the read (the file is missing
  or unreadable, or its bytes do not decode) or of a rule (\<open>PatternError\<close>). The same
  holds when the file may not be opened for writing. This is stated for the body
  shared by the scripts, with any path and rule list, and for \<^verbatim>\<open>fix_all_glossary.py\<close>.
\<close>

theorem failure_writes_nothing:
  "(files w path = None \<longrightarrow> patch path rules message w = (Some NotFoundError, w)) \<and>
   (fst (read_text path w) = Inl e \<longrightarrow> patch path rules message w = (Some e, w)) \<and>
   (fst (read_text path w) = Inr content \<and> apply_fixes rules content = Inl e \<longrightarrow>
      patch path rules message w = (Some e, w)) \<and>
   (files w path = Some f \<and> \<not> writable f \<longrightarrow> snd (patch path rules message w) = w) \<and>
   (files w target = None \<longrightarrow> fix_all_glossary w = (Some NotFoundError, w)) \<and>
   (fst (read_text target w) = Inl e \<longrightarrow> fix_all_glossary w = (Some e, w))"
proof -
  have "fst (read_text p w) = Inl NotFoundError" if "files w p = None" for p
    using that by (simp add: read_text_def)
  then show ?thesis
    using patch_read_failure patch_rule_failure patch_not_writable
    by (simp add: glossary_is_patch)
qed

theorem failure_writes_nothing_witness:
  "files no_files target = None \<and>
   fix_all_glossary no_files = (Some NotFoundError, no_files) \<and>
   fst (read_text target (world_with target \<lparr>decoded = None, readable = True, writable = True\<rparr>))
     = Inl EncodingError \<and>
   fix_all_glossary (world_with target \<lparr>decoded = None, readable = True, writable = True\<rparr>) =
     (Some EncodingError, world_with target \<lparr>decoded = None, readable = True, writable = True\<rparr>) \<and>
   fst (read_text target (world_with target \<lparr>decoded = Some [], readable = False, writable = True\<rparr>))
     = Inl PermissionError \<and>
   patch target [] (plain ''ok'')
       (world_with target \<lparr>decoded = Some [], readable = False, writable = True\<rparr>) =
     (Some PermissionError, world_with target \<lparr>decoded = Some [], readable = False, writable = True\<rparr>) \<and>
   fst (read_text target (world_with target (stored (plain ''a'')))) = Inr (plain ''a'') \<and>
   apply_fixes [(raw ''('', raw ''x'')] (plain ''a'') = Inl PatternError \<and>
   patch target [(raw ''('', raw ''x'')] (plain ''ok'') (world_with target (stored (plain ''a''))) =
     (Some PatternError, world_with target (stored (plain ''a'')))"
proof -
  let ?undecodable = "world_with target \<lparr>decoded = None, readable = True, writable = True\<rparr>"
  let ?unreadable = "world_with target \<lparr>decoded = Some [], readable = False, writable = True\<rparr>"
  let ?w = "world_with target (stored (plain ''a''))"
  have 1: "files no_files target = None" by (simp add: no_files_def)
  have 2: "fst (read_text target ?undecodable) = Inl EncodingError"
    by (simp add: world_defs world_with_def)
  have 3: "fst (read_text target ?unreadable) = Inl PermissionError"
    by (simp add: world_defs world_with_def)
  have 4: "fst (read_text target ?w) = Inr (plain ''a'')"
    by (simp add: world_defs world_with_def stored_def plain_def)
  have 5: "apply_fixes [(raw ''('', raw ''x'')] (plain ''a'') = Inl PatternError"
    by (simp add: eval_defs)
  show ?thesis
    using 1 2 3 4 5
      failure_writes_nothing [of no_files target "[]" "[]"]
      failure_writes_nothing [of ?undecodable target "[]" "[]" EncodingError]
      failure_writes_nothing [of ?unreadable target "[]" "plain ''ok''" PermissionError]
      failure_writes_nothing [of ?w target "[(raw ''('', raw ''x'')]" "plain ''ok''"
        PatternError "plain ''a''"]
    by simp
qed

text \<open>
  A failure in the write step itself is different, as the specification notes: a
  patched text that cannot be encoded is met after the file has been emptied.
\<close>

lemma write_failure_truncates:
  assumes "fst (read_text path w) = Inr content" and "apply_fixes rules content = Inr content'"
    and "files w path = Some f" and "writable f" and "\<not> list_all encodable content'"
  shows "patch path rules message w =
    (Some EncodingError, w\<lparr>files := (files w)(path \<mapsto> f\<lparr>decoded := Some []\<rparr>)\<rparr>)"
proof -
  from assms(1) read_text_world [of path w] have "read_text path w = (Inr content, w)"
    by (cases "read_text path w") simp
  with assms(2-5) show ?thesis
    by (simp add: patch_def write_text_def open_for_writing_def)
qed

lemma re_sub_compile_rule:
  "re_sub pat repl s =
     (case compile_rule (pat, repl) of
        Inl e \<Rightarrow> Inl e
      | Inr (p, t) \<Rightarrow> Inr (pattern_subx p t False s))"
  by (simp add: re_sub_def compile_rule_def split: sum.splits prod.splits)

lemma malformed_compile_rule:
  "re_compile (fst rule) = Inl PatternError \<Longrightarrow> compile_rule rule = Inl PatternError"
  by (simp add: compile_rule_def)

lemma apply_fixes_malformed:
  "\<exists>rule\<in>set rules. re_compile (fst rule) = Inl PatternError \<Longrightarrow>
   \<forall>rule\<in>set rules. modelled rule \<Longrightarrow> apply_fixes rules s = Inl PatternError"
proof (induction rules arbitrary: s)
  case Nil
  then show ?case by simp
next
  case (Cons rule rules)
  obtain pat repl where rule: "rule = (pat, repl)" by (cases rule)
  show ?case
  proof (cases "compile_rule rule")
    case (Inl e)
    with Cons.prems(2) have "e = PatternError" by (simp add: modelled_def)
    with Inl rule show ?thesis by (simp add: re_sub_compile_rule)
  next
    case (Inr c)
    with Cons.prems(1) have "\<exists>rule\<in>set rules. re_compile (fst rule) = Inl PatternError"
      by (auto dest: malformed_compile_rule)
    with Cons.IH Cons.prems(2) have "apply_fixes rules s' = Inl PatternError" for s' by simp
    with Inr rule show ?thesis by (simp add: re_sub_compile_rule split: prod.splits)
  qed
qed

text \<open>
  Claim C8, as stated: a malformed regular expression makes the run fail with
  \<open>PatternError\<close> before any file I/O. The scripts have no rule-construction step: they
  read the file first and compile each pattern inside \<^verbatim>\<open>re.sub\<close>. With a malformed
  pattern and no target file the run fails with \<open>NotFoundError\<close>, raised by the read.
\<close>

theorem malformed_rule_counterexample:
  "re_compile (raw ''('') = Inl PatternError \<and>
   patch target [(raw ''('', raw ''x'')] (plain ''ok'') no_files = (Some NotFoundError, no_files)"
  by (simp add: world_defs no_files_def eval_defs)

text \<open>
  Claim C8, amended. When some rule has a malformed pattern (and every rule is written
  in the modelled fragment), the file is read first: a failure of the read is the
  error of the run; when the read succeeds the run fails with \<open>PatternError\<close>. In both
  cases the failure comes before the write: nothing is written or printed.
\<close>

theorem malformed_rule_fails_after_read:
  assumes "\<exists>rule\<in>set rules. re_compile (fst rule) = Inl PatternError"
    and "\<forall>rule\<in>set rules. modelled rule"
  shows "patch path rules message w =
    (case fst (read_text path w) of
       Inl e \<Rightarrow> (Some e, w)
     | Inr content \<Rightarrow> (Some PatternError, w))"
proof (cases "fst (read_text path w)")
  case (Inl e)
  then show ?thesis by (simp add: patch_read_failure)
next
  case (Inr content)
  with apply_fixes_malformed [OF assms, of content] show ?thesis
    by (simp add: patch_rule_failure)
qed

theorem malformed_rule_fails_after_read_witness:
  "re_compile (fst (raw ''('', raw ''x'')) = Inl PatternError \<and>
   modelled (raw ''a'', raw ''b'') \<and> modelled (raw ''('', raw ''x'') \<and>
   patch target [(raw ''a'', raw ''b''), (raw ''('', raw ''x'')] (plain ''ok'')
       (world_with target (stored (plain ''a''))) =
     (Some PatternError, world_with target (stored (plain ''a''))) \<and>
   patch target [(raw ''a'', raw ''b''), (raw ''('', raw ''x'')] (plain ''ok'') no_files =
     (Some NotFoundError, no_files)"
proof -
  have 0: "re_compile (fst (raw ''('', raw ''x'')) = Inl PatternError"
    by (simp add: eval_defs)
  have m: "modelled (raw ''a'', raw ''b'')" "modelled (raw ''('', raw ''x'')"
    by (simp_all add: modelled_def compile_rule_def eval_defs)
  from 0 have 1: "\<exists>rule\<in>set [(raw ''a'', raw ''b''), (raw ''('', raw ''x'')].
      re_compile (fst rule) = Inl PatternError"
    by simp
  from m have 2: "\<forall>rule\<in>set [(raw ''a'', raw ''b''), (raw ''('', raw ''x'')]. modelled rule"
    by simp
  show ?thesis
    using 0 m
      malformed_rule_fails_after_read [OF 1 2, of target "plain ''ok''"
        "world_with target (stored (plain ''a''))"]
      malformed_rule_fails_after_read [OF 1 2, of target "plain ''ok''" no_files]
    by (simp add: read_text_def stored_def world_with_def no_files_def encodable_def plain_def)
qed

section \<open>Documents without a match\<close>

lemma search_False_sub: "\<not> search p s \<Longrightarrow> pattern_subx p t False s = s"
proof (induction s)
  case Nil
  then have "match_at p False [] = None" by (cases "match_at p False []") auto
  then show ?case by (subst pattern_subx.simps) simp
next
  case (Cons c cs)
  then have "match_at p False (c # cs) = None" and "pattern_subx p t False cs = cs"
    by (cases "match_at p False (c # cs)"; auto)+
  then show ?case by (subst pattern_subx.simps) simp
qed

lemma unmatched_re_sub: "unmatched (pat, repl) s \<Longrightarrow> re_sub pat repl s = Inr s"
  by (auto simp: unmatched_def re_sub_compile_rule search_False_sub
      split: sum.splits prod.splits)

lemma unmatched_apply_fixes:
  "\<forall>rule\<in>set rules. unmatched rule s \<Longrightarrow> apply_fixes rules s = Inr s"
  by (induction rules) (auto simp: unmatched_re_sub)

lemma first_literal_no_match:
  "first_literal p = Some c \<Longrightarrow> c \<notin> set s \<Longrightarrow> \<not> search p s"
proof (induction s)
  case Nil
  then show ?case by (cases p rule: first_literal.cases) (auto simp: match_at_def)
next
  case (Cons a s)
  then show ?case by (cases p rule: first_literal.cases) (auto simp: match_at_def)
qed

text \<open>Every rule of the two scripts compiles, and its pattern starts with a literal
  character that is not whitespace.\<close>

lemma fixes_first_literals:
  "list_all (\<lambda>rule. case compile_rule rule of
       Inl e \<Rightarrow> False
     | Inr (p, t) \<Rightarrow> (case first_literal p of None \<Rightarrow> False | Some c \<Rightarrow> \<not> is_space c))
     (fixes_list @ [(pattern, replacement)])"
  by (simp add: fixes_list_def pattern_def replacement_def compile_rule_def eval_defs)

lemma whitespace_unmatched:
  assumes "list_all is_space s" and "rule \<in> set (fixes_list @ [(pattern, replacement)])"
  shows "unmatched rule s"
proof -
  from fixes_first_literals assms(2) have
    r: "case compile_rule rule of
          Inl e \<Rightarrow> False
        | Inr (p, t) \<Rightarrow> (case first_literal p of None \<Rightarrow> False | Some c \<Rightarrow> \<not> is_space c)"
    unfolding list_all_iff by blast
  then obtain p t where pt: "compile_rule rule = Inr (p, t)"
    by (cases "compile_rule rule") auto
  with r obtain c where c: "first_literal p = Some c" "\<not> is_space c"
    by (cases "first_literal p") auto
  from assms(1) c(2) have "c \<notin> set s" by (auto simp: list_all_iff)
  with pt c show ?thesis by (simp add: unmatched_def first_literal_no_match)
qed

text \<open>
  Claim C4, as stated: when no rule's pattern has a match in the document, whitespace
  only documents included, the run completes without error and writes back the
  original content. Two inputs show otherwise. The file that holds a space, a carriage
  return and a line feed is whitespace only and no rule of \<^verbatim>\<open>fixes\<close> has a match in it,
  yet \<^verbatim>\<open>fix_syntax_errors.py\<close> rewrites it as a space and a line feed: the text-mode read
  has translated the line ending. And \<^verbatim>\<open>re.sub\<close> compiles the replacement before it
  searches: the rule with the pattern \<^verbatim>\<open>a\<close> and the replacement \<^verbatim>\<open>\1\<close> has no match in
  \<^verbatim>\<open>xyz\<close>, yet the run fails with \<open>PatternError\<close>, a group the pattern does not have.
\<close>

theorem unmatched_document_counterexample:
  "list_all is_space [32, 13, 10] \<and>
   list_all (\<lambda>rule. unmatched rule [32, 13, 10]) fixes_list \<and>
   fix_syntax_errors (world_with target (stored [32, 13, 10])) =
     (None, \<lparr>files = [target \<mapsto> stored [32, 10]], stdout = [plain ''Fixed syntax errors!'']\<rparr>) \<and>
   decoded (stored [32, 10]) \<noteq> decoded (stored [32, 13, 10]) \<and>
   re_compile (raw ''a'') = Inr ([Atom (Single (Literal 97))], 0) \<and>
   \<not> found (raw ''a'') (plain ''xyz'') \<and>
   patch target [(raw ''a'', raw ''~1'')] (plain ''ok'') (world_with target (stored (plain ''xyz''))) =
     (Some PatternError, world_with target (stored (plain ''xyz'')))"
proof -
  have s: "list_all is_space [32, 13, 10]" by (simp add: is_space_def)
  have u: "list_all (\<lambda>rule. unmatched rule [32, 13, 10]) fixes_list"
    unfolding list_all_iff using whitespace_unmatched [OF s] by simp
  have s': "list_all is_space [32, 10]" by (simp add: is_space_def)
  have "\<forall>rule\<in>set fixes_list. unmatched rule [32, 10]"
    using whitespace_unmatched [OF s'] by simp
  then have a: "apply_fixes fixes_list [32, 10] = Inr [32, 10]" by (rule unmatched_apply_fixes)
  have f: "fix_syntax_errors (world_with target (stored [32, 13, 10])) =
     (None, \<lparr>files = [target \<mapsto> stored [32, 10]], stdout = [plain ''Fixed syntax errors!'']\<rparr>)"
    using a by (simp add: fix_syntax_errors_def world_defs stored_def world_with_def)
  have c: "re_compile (raw ''a'') = Inr ([Atom (Single (Literal 97))], 0)"
    by (simp add: eval_defs)
  have n: "\<not> found (raw ''a'') (plain ''xyz'')" by (simp add: found_def eval_defs)
  have p: "patch target [(raw ''a'', raw ''~1'')] (plain ''ok'') (world_with target (stored (plain ''xyz''))) =
     (Some PatternError, world_with target (stored (plain ''xyz'')))"
    by (simp add: world_defs stored_def world_with_def eval_defs)
  from s u f c n p show ?thesis by (simp add: stored_def)
qed

text \<open>
  Claim C4, amended. Let the file, which the run may read and write, hold the text \<open>s\<close>.
  When \<open>s\<close> holds no carriage return and no rule has a match in it, every rule being
  well formed (its pattern and its replacement compile), the run succeeds and leaves
  the file as it found it; for the rules of the two scripts this covers every text of
  whitespace without a carriage return, the empty text included. With carriage returns
  the same holds of the loaded text: when no rule has a match in it the run succeeds
  and writes the loaded text back, which is the original one if and only if \<open>s\<close> holds
  no carriage return.
\<close>

theorem unmatched_document_unchanged:
  assumes "files w path = Some f" and "readable f" and "writable f"
    and "decoded f = Some s" and "list_all encodable s"
  shows "(13 \<notin> set s \<and> (\<forall>rule\<in>set rules. unmatched rule s) \<longrightarrow>
      patch path rules message w = (None, print message w)) \<and>
    (13 \<notin> set s \<and> list_all is_space s \<longrightarrow>
      patch path fixes_list message w = (None, print message w) \<and>
      patch path [(pattern, replacement)] message w = (None, print message w)) \<and>
    ((\<forall>rule\<in>set rules. unmatched rule (universal_newlines s)) \<longrightarrow>
      patch path rules message w =
        (None, print message (written path f (universal_newlines s) w))) \<and>
    (list_all is_space s \<longrightarrow>
      patch path fixes_list message w =
        (None, print message (written path f (universal_newlines s) w)) \<and>
      patch path [(pattern, replacement)] message w =
        (None, print message (written path f (universal_newlines s) w))) \<and>
    (written path f (universal_newlines s) w = w \<longleftrightarrow> 13 \<notin> set s)"
proof -
  have g: "patch path rs message w =
      (None, print message (written path f (universal_newlines s) w))"
    if "\<forall>rule\<in>set rs. unmatched rule (universal_newlines s)" for rs
    using assms unmatched_apply_fixes [OF that] by (rule patch_loaded)
  have sp: "\<forall>rule\<in>set rs. unmatched rule (universal_newlines s)"
    if "list_all is_space s" and "set rs \<subseteq> set (fixes_list @ [(pattern, replacement)])" for rs
    using whitespace_unmatched [OF universal_newlines_space [OF that(1)]] that(2) by blast
  have w: "written path f (universal_newlines s) w = w \<longleftrightarrow> 13 \<notin> set s"
    using written_same [OF assms(1,4)] universal_newlines_fixed by simp
  have 3: "(\<forall>rule\<in>set rules. unmatched rule (universal_newlines s)) \<longrightarrow>
      patch path rules message w =
        (None, print message (written path f (universal_newlines s) w))"
    using g by blast
  have 4: "list_all is_space s \<longrightarrow>
      patch path fixes_list message w =
        (None, print message (written path f (universal_newlines s) w)) \<and>
      patch path [(pattern, replacement)] message w =
        (None, print message (written path f (universal_newlines s) w))"
    using g [OF sp, of fixes_list] g [OF sp, of "[(pattern, replacement)]"] by auto
  from w have wn: "written path f (universal_newlines s) w = w" if "13 \<notin> set s"
    using that by blast
  have 1: "13 \<notin> set s \<and> (\<forall>rule\<in>set rules. unmatched rule s) \<longrightarrow>
      patch path rules message w = (None, print message w)"
    using 3 wn universal_newlines_id [of s] by auto
  have 2: "13 \<notin> set s \<and> list_all is_space s \<longrightarrow>
      patch path fixes_list message w = (None, print message w) \<and>
      patch path [(pattern, replacement)] message w = (None, print message w)"
    using 4 wn by auto
  from 1 2 3 4 w show ?thesis by blast
qed

theorem unmatched_document_unchanged_witness:
  "13 \<notin> set (plain ''xyz'') \<and> unmatched (raw ''a'', raw ''b'') (plain ''xyz'') \<and>
   patch target [(raw ''a'', raw ''b'')] (plain ''ok'') (world_with target (stored (plain ''xyz''))) =
     (None, print (plain ''ok'') (world_with target (stored (plain ''xyz'')))) \<and>
   13 \<notin> set (lit '' ~n'') \<and> list_all is_space (lit '' ~n'') \<and>
   patch target fixes_list (plain ''ok'') (world_with target (stored (lit '' ~n''))) =
     (None, print (plain ''ok'') (world_with target (stored (lit '' ~n'')))) \<and>
   patch target [(pattern, replacement)] (plain ''ok'') (world_with target (stored (lit '' ~n''))) =
     (None, print (plain ''ok'') (world_with target (stored (lit '' ~n'')))) \<and>
   patch target fixes_list (plain ''ok'') (world_with target (stored [])) =
     (None, print (plain ''ok'') (world_with target (stored []))) \<and>
   unmatched (raw ''a'', raw ''b'') (universal_newlines [120, 13, 10, 121]) \<and>
   patch target [(raw ''a'', raw ''b'')] (plain ''ok'') (world_with target (stored [120, 13, 10, 121])) =
     (None, print (plain ''ok'')
        (written target (stored [120, 13, 10, 121]) [120, 10, 121]
          (world_with target (stored [120, 13, 10, 121])))) \<and>
   written target (stored [120, 13, 10, 121]) [120, 10, 121]
       (world_with target (stored [120, 13, 10, 121])) \<noteq>
     world_with target (stored [120, 13, 10, 121])"
proof -
  have u: "unmatched (raw ''a'', raw ''b'') (plain ''xyz'')"
      "unmatched (raw ''a'', raw ''b'') (universal_newlines [120, 13, 10, 121])"
    by (simp_all add: unmatched_def compile_rule_def eval_defs)
  have n: "universal_newlines [120, 13, 10, 121] = [120, 10, 121]" by simp
  have r: "files (world_with target (stored x)) target = Some (stored x)"
      "readable (stored x)" "writable (stored x)" "decoded (stored x) = Some x" for x
    by (simp_all add: world_with_def stored_def)
  have e: "list_all encodable (plain ''xyz'')" "list_all encodable (lit '' ~n'')"
      "list_all encodable []" "list_all encodable [120, 13, 10, 121]"
    by (simp_all add: encodable_def plain_def)
  have s: "list_all is_space (lit '' ~n'')" "list_all is_space []" by (simp_all add: is_space_def)
  have c: "13 \<notin> set (plain ''xyz'')" "13 \<notin> set (lit '' ~n'')" by (simp_all add: plain_def)
  show ?thesis
    using u s c
      unmatched_document_unchanged [OF r e(1), of "[(raw ''a'', raw ''b'')]" "plain ''ok''"]
      unmatched_document_unchanged [OF r e(2), of "[]" "plain ''ok''"]
      unmatched_document_unchanged [OF r e(3), of "[]" "plain ''ok''"]
      unmatched_document_unchanged [OF r e(4), of "[(raw ''a'', raw ''b'')]" "plain ''ok''"]
    unfolding n by simp
qed


section \<open>Applying a rule list twice\<close>

text \<open>
  Claim C6, as stated: applying the rule list again is idempotent if and only if no
  pattern matches the replacement text produced before. Both directions fail. The
  rule that rewrites \<^verbatim>\<open>a\<close> to \<^verbatim>\<open>a\<close> is idempotent on the document \<^verbatim>\<open>a\<close> (the patched
  result is \<^verbatim>\<open>a\<close>, and so is the result of the second application), although its
  pattern matches the replacement text \<^verbatim>\<open>a\<close> that it produced. The rule that rewrites
  \<^verbatim>\<open>ab\<close> to \<^verbatim>\<open>a\<close> is not idempotent on the document \<^verbatim>\<open>abb\<close> (it gives \<^verbatim>\<open>ab\<close>, then \<^verbatim>\<open>a\<close>),
  although its pattern has no match in the replacement text \<^verbatim>\<open>a\<close>: the new match is made
  of replacement text and of text that was left standing.
\<close>

theorem idempotence_counterexample:
  "apply_fixes [(raw ''a'', raw ''a'')] (plain ''a'') = Inr (plain ''a'') \<and>
   found (raw ''a'') (plain ''a'') \<and>
   apply_fixes [(raw ''ab'', raw ''a'')] (plain ''abb'') = Inr (plain ''ab'') \<and>
   apply_fixes [(raw ''ab'', raw ''a'')] (plain ''ab'') = Inr (plain ''a'') \<and>
   \<not> found (raw ''ab'') (plain ''a'') \<and> plain ''ab'' \<noteq> plain ''a''"
  by (simp add: found_def eval_defs)

text \<open>
  Claim C6, amended. If no pattern of the rule list has a match in the already-patched
  result, applying the list again leaves that result unchanged. The transformation is
  not idempotent in general: the rule that rewrites \<^verbatim>\<open>a\<close> to \<^verbatim>\<open>aa\<close> turns \<^verbatim>\<open>a\<close> into
  \<^verbatim>\<open>aa\<close> and then \<^verbatim>\<open>aa\<close> into \<^verbatim>\<open>aaaa\<close>.
\<close>

theorem reapplication:
  "(apply_fixes rules s = Inr s' \<and> (\<forall>rule\<in>set rules. unmatched rule s') \<longrightarrow>
      apply_fixes rules s' = Inr s') \<and>
   apply_fixes [(raw ''a'', raw ''aa'')] (plain ''a'') = Inr (plain ''aa'') \<and>
   apply_fixes [(raw ''a'', raw ''aa'')] (plain ''aa'') = Inr (plain ''aaaa'') \<and>
   plain ''aa'' \<noteq> plain ''aaaa''"
proof -
  have "apply_fixes [(raw ''a'', raw ''aa'')] (plain ''a'') = Inr (plain ''aa'')"
    by (simp add: eval_defs)
  moreover have "apply_fixes [(raw ''a'', raw ''aa'')] (plain ''aa'') = Inr (plain ''aaaa'')"
    by (simp add: eval_defs)
  moreover have "plain ''aa'' \<noteq> plain ''aaaa''" by (simp add: plain_def)
  ultimately show ?thesis using unmatched_apply_fixes by blast
qed

theorem reapplication_witness:
  "apply_fixes [(raw ''a'', raw ''b'')] (plain ''a'') = Inr (plain ''b'') \<and>
   unmatched (raw ''a'', raw ''b'') (plain ''b'') \<and>
   apply_fixes [(raw ''a'', raw ''b'')] (plain ''b'') = Inr (plain ''b'')"
proof -
  have 1: "apply_fixes [(raw ''a'', raw ''b'')] (plain ''a'') = Inr (plain ''b'')"
    by (simp add: eval_defs)
  have 2: "unmatched (raw ''a'', raw ''b'') (plain ''b'')" by (simp add: unmatched_def compile_rule_def eval_defs)
  show ?thesis
    using 1 2 reapplication [of "[(raw ''a'', raw ''b'')]" "plain ''a''" "plain ''b''"]
    by simp
qed

section \<open>A single pass replaces matches and nothing else\<close>

text \<open>Every match the engine reports is a word of the pattern, cut from the front of the text.\<close>

lemma take_takeWhile: "k \<le> length (takeWhile P s) \<Longrightarrow> take k s = take k (takeWhile P s)"
proof -
  assume k: "k \<le> length (takeWhile P s)"
  have "take k s = take k (takeWhile P s @ dropWhile P s)" by simp
  also from k have "\<dots> = take k (takeWhile P s)" by (simp only: take_append) simp
  finally show ?thesis .
qed

lemma match_sound:
  "(s', marks') \<in> set (match_node n s marks) \<Longrightarrow> \<exists>w. s = w @ s' \<and> accepts_node n w marks marks'"
  "(s', marks') \<in> set (match_seq p s marks) \<Longrightarrow> \<exists>w. s = w @ s' \<and> accepts_seq p w marks marks'"
proof (induction n s marks and p s marks arbitrary: s' marks' and s' marks'
    rule: match_node_match_seq.induct)
  case (1 a s marks)
  then obtain c where "s = c # s'" "atom_ok a c" "marks' = marks"
    by (auto split: list.splits if_splits)
  then have "s = [c] @ s' \<and> accepts_node (Atom a) [c] marks marks'"
    by (simp add: accepts_Atom)
  then show ?case by blast
next
  case (2 n a s marks)
  then obtain k where k: "s' = drop k s" "n \<le> k" "k \<le> length (takeWhile (atom_ok a) s)"
      and m: "marks' = marks"
    by auto
  have "set (take k s) \<subseteq> set (takeWhile (atom_ok a) s)"
    using take_takeWhile [OF k(3)] by (metis set_take_subset)
  then have ok: "list_all (atom_ok a) (take k s)"
    by (auto simp: list_all_iff dest: set_takeWhileD)
  from k(3) have "k \<le> length s" using length_takeWhile_le le_trans by blast
  with k(2) have "n \<le> length (take k s)" by simp
  with ok m have "accepts_node (Max_repeat n a) (take k s) marks marks'"
    by (simp add: accepts_Max_repeat)
  moreover from k(1) have "s = take k s @ s'" by simp
  ultimately show ?case by blast
next
  case (3 g p s marks)
  from "3.prems" obtain m where
    a: "(s', m) \<in> set (match_seq p s marks)" and
    b: "marks' = m(g \<mapsto> take (length s - length s') s)"
    by auto
  from "3.IH" [OF a] obtain w where w: "s = w @ s'" "accepts_seq p w marks m" by blast
  from w(1) have "take (length s - length s') s = w" by simp
  with b w(2) have "accepts_node (Subpattern g p) w marks marks'"
    by (simp add: accepts_Subpattern)
  with w(1) show ?case by blast
next
  case (4 s marks)
  then show ?case by (simp add: accepts_Nil)
next
  case (5 n p s marks)
  from "5.prems" obtain s1 marks1 where
    a: "(s1, marks1) \<in> set (match_node n s marks)" and
    b: "(s', marks') \<in> set (match_seq p s1 marks1)"
    by auto
  from "5.IH"(1) [OF a] obtain u where u: "s = u @ s1" "accepts_node n u marks marks1" by blast
  from "5.IH"(2) [OF a refl b] obtain v where v: "s1 = v @ s'" "accepts_seq p v marks1 marks'"
    by blast
  from u v have "s = (u @ v) @ s'" "accepts_seq (n # p) (u @ v) marks marks'"
    by (simp_all add: accepts_Cons)
  then show ?case by blast
qed

lemma match_at_sound:
  "match_at p must_advance s = Some (s', marks') \<Longrightarrow>
   \<exists>w. s = w @ s' \<and> accepts_seq p w Map.empty marks'"
  unfolding match_at_def find_Some_iff by (metis match_sound(2) nth_mem)

lemma replaces_matches_Nil: "replaces_matches p t [] []"
  unfolding replaces_matches_def by (rule exI [of _ "[]"], rule exI [of _ "[]"]) simp

lemma replaces_matches_skip:
  assumes "replaces_matches p t s out"
  shows "replaces_matches p t (c # s) (c # out)"
proof -
  from assms obtain pieces tail where
    s: "s = concat (map (\<lambda>(gap, m, marks). gap @ m) pieces) @ tail" and
    out: "out = concat (map (\<lambda>(gap, m, marks). gap @ expand_template t marks) pieces) @ tail" and
    acc: "list_all (\<lambda>(gap, m, marks). accepts_seq p m Map.empty marks) pieces"
    unfolding replaces_matches_def by blast
  show ?thesis
  proof (cases pieces)
    case Nil
    with s out show ?thesis
      unfolding replaces_matches_def
      by (intro exI [of _ "[]"] exI [of _ "c # tail"]) simp
  next
    case (Cons piece rest)
    obtain gap m marks where piece: "piece = (gap, m, marks)" by (cases piece)
    with Cons s out acc show ?thesis
      unfolding replaces_matches_def
      by (intro exI [of _ "(c # gap, m, marks) # rest"] exI [of _ tail]) simp
  qed
qed

lemma replaces_matches_match:
  assumes "accepts_seq p m Map.empty marks" and "replaces_matches p t s out"
  shows "replaces_matches p t (m @ s) (expand_template t marks @ out)"
proof -
  from assms(2) obtain pieces tail where
    s: "s = concat (map (\<lambda>(gap, m, marks). gap @ m) pieces) @ tail" and
    out: "out = concat (map (\<lambda>(gap, m, marks). gap @ expand_template t marks) pieces) @ tail" and
    acc: "list_all (\<lambda>(gap, m, marks). accepts_seq p m Map.empty marks) pieces"
    unfolding replaces_matches_def by blast
  with assms(1) show ?thesis
    unfolding replaces_matches_def
    by (intro exI [of _ "([], m, marks) # pieces"] exI [of _ tail]) simp
qed

lemma pattern_subx_replaces_matches:
  "replaces_matches p t s (pattern_subx p t must_advance s)"
proof (induction p t must_advance s rule: pattern_subx.induct)
  case (1 p t must_advance s)
  show ?case
  proof (cases "match_at p must_advance s")
    case None
    show ?thesis
    proof (cases s)
      case Nil
      with None show ?thesis
        by (subst pattern_subx.simps) (simp add: replaces_matches_Nil)
    next
      case (Cons c cs)
      from "1.IH"(1) [OF None Cons]
      have "replaces_matches p t cs (pattern_subx p t False cs)" .
      with None Cons show ?thesis
        by (subst pattern_subx.simps) (simp add: replaces_matches_skip)
    qed
  next
    case (Some r)
    obtain s' marks where r: "r = (s', marks)" by (cases r)
    with Some have m: "match_at p must_advance s = Some (s', marks)" by simp
    from match_at_sound [OF m] obtain w where w: "s = w @ s'" "accepts_seq p w Map.empty marks"
      by blast
    from "1.IH"(2) [OF Some r [symmetric]]
    have "replaces_matches p t s' (pattern_subx p t (s' = s) s')" .
    with w(2) have "replaces_matches p t (w @ s')
        (expand_template t marks @ pattern_subx p t (s' = s) s')"
      by (rule replaces_matches_match)
    with m w(1) show ?thesis by (subst pattern_subx.simps) simp
  qed
qed

text \<open>
  Conversely the engine finds every word of the pattern at the front of the text, so
  that a character is skipped only where no match that is not empty starts.
\<close>

lemma match_complete:
  "accepts_node n w marks marks' \<Longrightarrow> (x, marks') \<in> set (match_node n (w @ x) marks)"
  "accepts_seq p w marks marks' \<Longrightarrow> (x, marks') \<in> set (match_seq p (w @ x) marks)"
proof (induction arbitrary: x and x rule: accepts_node_accepts_seq.inducts)
  case (accepts_Atom a c marks)
  then show ?case by simp
next
  case (accepts_Max_repeat n w a marks)
  from accepts_Max_repeat(2) have "takeWhile (atom_ok a) (w @ x) = w @ takeWhile (atom_ok a) x"
    by (simp add: list_all_iff)
  then have "length w < Suc (length (takeWhile (atom_ok a) (w @ x)))" by simp
  with accepts_Max_repeat(1) have "length w \<in> set (rev [n..<Suc (length (takeWhile (atom_ok a) (w @ x)))])"
    by (simp del: upt_Suc) 
  then have "(drop (length w) (w @ x), marks)
      \<in> set (map (\<lambda>k. (drop k (w @ x), marks)) (rev [n..<Suc (length (takeWhile (atom_ok a) (w @ x)))]))"
    unfolding set_map by (rule imageI)
  then show ?case by simp
next
  case (accepts_Subpattern p w marks marks' g)
  let ?f = "\<lambda>(s', m). (s', m(g \<mapsto> take (length (w @ x) - length s') (w @ x)))"
  from accepts_Subpattern.IH [of x]
  have "?f (x, marks') \<in> ?f ` set (match_seq p (w @ x) marks)" by (rule imageI)
  moreover have "?f (x, marks') = (x, marks'(g \<mapsto> w))" by simp
  ultimately have "(x, marks'(g \<mapsto> w)) \<in> ?f ` set (match_seq p (w @ x) marks)"
    by (simp only:)
  then show ?case by (simp only: match_node.simps set_map)
next
  case (accepts_Nil marks)
  then show ?case by simp
next
  case (accepts_Cons n u marks marks1 p v marks2)
  from accepts_Cons.IH(1) [of "v @ x"] accepts_Cons.IH(2) [of x]
  show ?case by (auto intro!: bexI [of _ "(v @ x, marks1)"])
qed

lemma match_at_complete:
  assumes "accepts_seq p w Map.empty marks" and "w \<noteq> []"
  shows "match_at p must_advance (w @ x) \<noteq> None"
proof -
  from match_complete(2) [OF assms(1)] have "(x, marks) \<in> set (match_seq p (w @ x) Map.empty)" .
  moreover from assms(2) have "x \<noteq> w @ x" by simp
  ultimately show ?thesis
    unfolding match_at_def find_None_iff by blast
qed

lemma pattern_subx_global:
  "global_replacement p t s (pattern_subx p t must_advance s)"
proof (induction p t must_advance s rule: pattern_subx.induct)
  case (1 p t must_advance s)
  show ?case
  proof (cases "match_at p must_advance s")
    case None
    show ?thesis
    proof (cases s)
      case Nil
      with None show ?thesis
        by (subst pattern_subx.simps) (simp add: global_end)
    next
      case (Cons c cs)
      from "1.IH"(1) [OF None Cons]
      have "global_replacement p t cs (pattern_subx p t False cs)" .
      moreover have "\<forall>w marks x. w \<noteq> [] \<and> c # cs = w @ x \<longrightarrow> \<not> accepts_seq p w Map.empty marks"
        using None Cons match_at_complete by metis
      ultimately have "global_replacement p t (c # cs) (c # pattern_subx p t False cs)"
        by (rule global_copy [rotated])
      with None Cons show ?thesis
        by (subst pattern_subx.simps) simp
    qed
  next
    case (Some r)
    obtain s' marks where r: "r = (s', marks)" by (cases r)
    with Some have m: "match_at p must_advance s = Some (s', marks)" by simp
    from match_at_sound [OF m] obtain w where w: "s = w @ s'" "accepts_seq p w Map.empty marks"
      by blast
    from "1.IH"(2) [OF Some r [symmetric]]
    have "global_replacement p t s' (pattern_subx p t (s' = s) s')" .
    with w(2) have "global_replacement p t (w @ s')
        (expand_template t marks @ pattern_subx p t (s' = s) s')"
      by (rule global_replace)
    with m w(1) show ?thesis by (subst pattern_subx.simps) simp
  qed
qed

lemma global_replacement_frame:
  "global_replacement p t s out \<Longrightarrow> replaces_matches p t s out"
  by (induction rule: global_replacement.induct)
    (auto intro: replaces_matches_Nil replaces_matches_skip replaces_matches_match)

inductive_cases accepts_seq_ConsE: "accepts_seq (n # p) w marks marks'"
inductive_cases accepts_node_AtomE: "accepts_node (Atom a) w marks marks'"

lemma accepts_first_literal:
  "first_literal p = Some c \<Longrightarrow> accepts_seq p w marks marks' \<Longrightarrow> \<exists>w'. w = c # w'"
  by (cases p rule: first_literal.cases)
    (auto elim!: accepts_seq_ConsE accepts_node_AtomE)

text \<open>
  Claim C10. For each rule of the two scripts (each compiles) and every text \<open>s\<close>, one
  pass of \<^verbatim>\<open>re.sub\<close> cuts \<open>s\<close> from left to right into gaps and matches of the pattern that
  do not overlap, none of them empty, and a tail; the output is the same sequence with
  each match replaced by the expanded replacement. The gaps and the tail, the text
  that is part of no match, stand in the output as they are and in their order.
\<close>

theorem single_pass_frame:
  "\<forall>rule\<in>set (fixes_list @ [(pattern, replacement)]).
     \<exists>p t. compile_rule rule = Inr (p, t) \<and>
       (\<forall>m marks. accepts_seq p m Map.empty marks \<longrightarrow> m \<noteq> []) \<and>
       (\<forall>s. re_sub (fst rule) (snd rule) s = Inr (pattern_subx p t False s) \<and>
            replaces_matches p t s (pattern_subx p t False s))"
proof
  fix rule
  assume "rule \<in> set (fixes_list @ [(pattern, replacement)])"
  with fixes_first_literals have
    r: "case compile_rule rule of
       Inl e \<Rightarrow> False
     | Inr (p, t) \<Rightarrow> (case first_literal p of None \<Rightarrow> False | Some c \<Rightarrow> \<not> is_space c)"
    unfolding list_all_iff by blast
  then obtain p t where pt: "compile_rule rule = Inr (p, t)"
    by (cases "compile_rule rule") auto
  with r obtain c where c: "first_literal p = Some c"
    by (cases "first_literal p") auto
  have "re_sub (fst rule) (snd rule) s = Inr (pattern_subx p t False s)" for s
    using pt by (simp add: re_sub_compile_rule)
  moreover have "m \<noteq> []" if "accepts_seq p m Map.empty marks" for m marks
    using accepts_first_literal [OF c that] by blast
  ultimately show
    "\<exists>p t. compile_rule rule = Inr (p, t) \<and>
       (\<forall>m marks. accepts_seq p m Map.empty marks \<longrightarrow> m \<noteq> []) \<and>
       (\<forall>s. re_sub (fst rule) (snd rule) s = Inr (pattern_subx p t False s) \<and>
            replaces_matches p t s (pattern_subx p t False s))"
    using pt pattern_subx_replaces_matches by blast
qed

theorem single_pass_frame_witness:
  "hd fixes_list \<in> set (fixes_list @ [(pattern, replacement)]) \<and>
   (\<exists>p t. compile_rule (hd fixes_list) = Inr (p, t) \<and>
      re_sub (fst (hd fixes_list)) (snd (hd fixes_list)) (lit ''a insertContent('X'~n.run(); b'')
        = Inr (lit ''a insertContent('X').run(); b'') \<and>
      replaces_matches p t (lit ''a insertContent('X'~n.run(); b'')
        (lit ''a insertContent('X').run(); b''))"
proof -
  have 1: "hd fixes_list \<in> set (fixes_list @ [(pattern, replacement)])"
    by (simp add: fixes_list_def)
  have 2: "re_sub (fst (hd fixes_list)) (snd (hd fixes_list)) (lit ''a insertContent('X'~n.run(); b'')
        = Inr (lit ''a insertContent('X').run(); b'')"
    by (simp add: fixes_list_def eval_defs)
  from single_pass_frame 1 obtain p t where
    pt: "compile_rule (hd fixes_list) = Inr (p, t)"
      "\<And>s. re_sub (fst (hd fixes_list)) (snd (hd fixes_list)) s = Inr (pattern_subx p t False s)"
      "\<And>s. replaces_matches p t s (pattern_subx p t False s)"
    by blast
  from pt(2) [of "lit ''a insertContent('X'~n.run(); b''"] 2
  have "pattern_subx p t False (lit ''a insertContent('X'~n.run(); b'')
      = lit ''a insertContent('X').run(); b''" by simp
  with pt(3) [of "lit ''a insertContent('X'~n.run(); b''"]
  have "replaces_matches p t (lit ''a insertContent('X'~n.run(); b'')
      (lit ''a insertContent('X').run(); b'')" by simp
  with 1 2 pt(1) show ?thesis by blast
qed

section \<open>The rules are applied in their order\<close>

text \<open>Substitution keeps a text encodable when the replacement is.\<close>

lemma marks_encodable_upd:
  "marks_encodable marks \<Longrightarrow> list_all encodable w \<Longrightarrow> marks_encodable (marks(g \<mapsto> w))"
  unfolding marks_encodable_def by (metis fun_upd_apply option.inject)

lemma accepts_marks_encodable:
  "accepts_node n w marks marks' \<Longrightarrow> marks_encodable marks \<Longrightarrow> list_all encodable w
     \<Longrightarrow> marks_encodable marks'"
  "accepts_seq p w marks marks' \<Longrightarrow> marks_encodable marks \<Longrightarrow> list_all encodable w
     \<Longrightarrow> marks_encodable marks'"
proof (induction rule: accepts_node_accepts_seq.inducts)
  case (accepts_Atom a c marks)
  then show ?case by simp
next
  case (accepts_Max_repeat n w a marks)
  then show ?case by simp
next
  case (accepts_Subpattern p w marks marks' g)
  then have m: "marks_encodable marks'" by simp
  from marks_encodable_upd [OF m accepts_Subpattern.prems(2)] show ?case .
next
  case (accepts_Nil marks)
  then show ?case by simp
next
  case (accepts_Cons n u marks marks1 p v marks2)
  then show ?case by simp
qed

lemma expand_template_encodable:
  "template_encodable t \<Longrightarrow> marks_encodable marks \<Longrightarrow> list_all encodable (expand_template t marks)"
proof (induction t)
  case Nil
  then show ?case by (simp add: expand_template_def)
next
  case (Cons a t)
  then have "list_all encodable (expand_template t marks)" by (simp add: template_encodable_def)
  moreover have "list_all encodable (expand_part marks a)"
    using Cons.prems by (cases a) (auto simp: template_encodable_def marks_encodable_def split: option.splits)
  ultimately show ?case by (simp add: expand_template_def)
qed

lemma pattern_subx_encodable:
  "template_encodable t \<Longrightarrow> list_all encodable s \<Longrightarrow>
   list_all encodable (pattern_subx p t must_advance s)"
proof (induction p t must_advance s rule: pattern_subx.induct)
  case (1 p t must_advance s)
  show ?case
  proof (cases "match_at p must_advance s")
    case None
    show ?thesis
    proof (cases s)
      case Nil
      with None show ?thesis by (subst pattern_subx.simps) simp
    next
      case (Cons c cs)
      with "1.prems" have "list_all encodable cs" by simp
      from "1.IH"(1) [OF None Cons "1.prems"(1) this] Cons None "1.prems"(2) show ?thesis
        by (subst pattern_subx.simps) simp
    qed
  next
    case (Some r)
    obtain s' marks where r: "r = (s', marks)" by (cases r)
    with Some have m: "match_at p must_advance s = Some (s', marks)" by simp
    from match_at_sound [OF m] obtain w where w: "s = w @ s'" "accepts_seq p w Map.empty marks"
      by blast
    from w(1) "1.prems"(2) have e: "list_all encodable w" "list_all encodable s'" by simp_all
    have "marks_encodable marks"
      using accepts_marks_encodable(2) [OF w(2) _ e(1)] by (simp add: marks_encodable_def)
    with "1.prems"(1) have "list_all encodable (expand_template t marks)"
      by (rule expand_template_encodable)
    moreover from "1.IH"(2) [OF Some r [symmetric] "1.prems"(1) e(2)]
    have "list_all encodable (pattern_subx p t (s' = s) s')" .
    ultimately show ?thesis using m by (subst pattern_subx.simps) simp
  qed
qed

lemma map_sum_Inr: "map_sum id g r = Inr t \<Longrightarrow> \<exists>y. r = Inr y \<and> t = g y"
  by (cases r) auto

lemma parse_template_encodable:
  "parse_template groups r = Inr t \<Longrightarrow> list_all encodable r \<Longrightarrow> template_encodable t"
proof (induction r arbitrary: t rule: length_induct)
  case (1 r)
  have IH: "template_encodable t'"
    if "parse_template groups r' = Inr t'" "list_all encodable r'" "length r' < length r"
    for r' t'
    using 1(1) that by blast
  show ?case
  proof (cases r)
    case Nil
    with 1(2) show ?thesis by (simp add: template_encodable_def)
  next
    case (Cons c cs)
    show ?thesis
    proof (cases "c = 92")
      case False
      with Cons 1(2) have "map_sum id ((#) (TLiteral c)) (parse_template groups cs) = Inr t"
        by simp
      then obtain t' where t': "parse_template groups cs = Inr t'" "t = TLiteral c # t'"
        by (auto dest: map_sum_Inr)
      from IH [OF t'(1)] 1(3) Cons have "template_encodable t'" by simp
      with t'(2) 1(3) Cons show ?thesis by (auto simp: template_encodable_def)
    next
      case True
      with Cons 1(2) obtain e cs' where cs: "cs = e # cs'" by (cases cs) auto
      from 1(3) Cons cs have enc: "encodable e" "list_all encodable cs'" by simp_all
      have l: "encodable 10" "encodable 92" by (simp_all add: encodable_def)
      from 1(2) Cons True cs have "parse_template groups (92 # e # cs') = Inr t" by simp
      then have "t = [TGroup (e - 48)] \<or>
        (\<exists>t'. parse_template groups cs' = Inr t' \<and>
           (t = TLiteral 10 # t' \<or> t = TLiteral 92 # t' \<or> t = TGroup (e - 48) # t' \<or>
            t = TLiteral 92 # TLiteral e # t'))"
        apply (subst (asm) parse_template.simps)
        apply (simp del: parse_template.simps split: if_splits list.splits)
        by (auto dest!: map_sum_Inr simp del: parse_template.simps)
      then show ?thesis
      proof
        assume "t = [TGroup (e - 48)]"
        then show ?thesis by (simp add: template_encodable_def)
      next
        assume "\<exists>t'. parse_template groups cs' = Inr t' \<and>
           (t = TLiteral 10 # t' \<or> t = TLiteral 92 # t' \<or> t = TGroup (e - 48) # t' \<or>
            t = TLiteral 92 # TLiteral e # t')"
        then obtain t' where t': "parse_template groups cs' = Inr t'"
          "t = TLiteral 10 # t' \<or> t = TLiteral 92 # t' \<or> t = TGroup (e - 48) # t' \<or>
            t = TLiteral 92 # TLiteral e # t'"
          by blast
        from IH [OF t'(1) enc(2)] Cons cs have "template_encodable t'" by simp
        with t'(2) l enc(1) show ?thesis by (auto simp: template_encodable_def)
      qed
    qed
  qed
qed

lemma compile_rule_encodable:
  "compile_rule rule = Inr (p, t) \<Longrightarrow> list_all encodable (snd rule) \<Longrightarrow> template_encodable t"
  by (auto simp: compile_rule_def split: sum.splits prod.splits dest: parse_template_encodable)

lemma fold_encodable:
  "list_all2 (\<lambda>rule c. compile_rule rule = Inr c) rules compiled \<Longrightarrow>
   \<forall>rule\<in>set rules. list_all encodable (snd rule) \<Longrightarrow> list_all encodable s \<Longrightarrow>
   list_all encodable (fold (\<lambda>(p, t). pattern_subx p t False) compiled s)"
proof (induction rules compiled arbitrary: s rule: list_all2_induct)
  case Nil
  then show ?case by simp
next
  case (Cons rule rules c compiled)
  obtain p t where c: "c = (p, t)" by (cases c)
  with Cons.hyps(1) Cons.prems(1) have "template_encodable t"
    by (auto dest: compile_rule_encodable)
  then have "list_all encodable (pattern_subx p t False s)"
    using Cons.prems(2) by (rule pattern_subx_encodable)
  with Cons.IH Cons.prems(1) c show ?case by simp
qed

lemma apply_fixes_compiled:
  "list_all2 (\<lambda>rule c. compile_rule rule = Inr c) rules compiled \<Longrightarrow>
   apply_fixes rules s = Inr (fold (\<lambda>(p, t). pattern_subx p t False) compiled s) \<and>
   applied_in_order compiled s (fold (\<lambda>(p, t). pattern_subx p t False) compiled s)"
proof (induction rules compiled arbitrary: s rule: list_all2_induct)
  case Nil
  then show ?case by (simp add: applied_Nil)
next
  case (Cons rule rules c compiled)
  obtain pat repl where rule: "rule = (pat, repl)" by (cases rule)
  obtain p t where c: "c = (p, t)" by (cases c)
  from Cons.hyps(1) rule c have r: "re_sub pat repl s = Inr (pattern_subx p t False s)"
    by (simp add: re_sub_compile_rule)
  from Cons.IH [of "pattern_subx p t False s"] r rule c show ?case
    by (auto intro: applied_Cons pattern_subx_global)
qed

text \<open>
  Claim C1. Let \<open>content\<close> be the document the run reads from a file it may write, and
  let every rule be well formed, \<open>compiled\<close> being the rules compiled, with a
  replacement that the encoding of the file can express. The run succeeds,
  and the content it writes back is the result of running the substitution loop of
  \<^verbatim>\<open>re.sub\<close> for each rule in the given order, each on the output of the one before.
  That result is reached by global replacements applied in order: each pass replaces
  matches of its rule's pattern, taken from left to right without overlap, and copies
  a character only where no match that is not empty starts.
\<close>

theorem patch_applies_rules_in_order:
  assumes "fst (read_text path w) = Inr content" and "files w path = Some f" and "writable f"
    and "list_all2 (\<lambda>rule c. compile_rule rule = Inr c) rules compiled"
    and "\<forall>rule\<in>set rules. list_all encodable (snd rule)"
  shows "patch path rules message w =
      (None, print message
         (written path f (fold (\<lambda>(p, t). pattern_subx p t False) compiled content) w)) \<and>
    applied_in_order compiled content (fold (\<lambda>(p, t). pattern_subx p t False) compiled content)"
proof -
  let ?out = "fold (\<lambda>(p, t). pattern_subx p t False) compiled content"
  from apply_fixes_compiled [OF assms(4), of content]
  have a: "apply_fixes rules content = Inr ?out" and b: "applied_in_order compiled content ?out"
    by simp_all
  have "list_all encodable ?out"
    using assms(4,5) read_text_encodable [OF assms(1)] by (rule fold_encodable)
  with assms(1) a assms(2,3)
  have "patch path rules message w = (None, print message (written path f ?out w))"
    by (rule patch_ok)
  with b show ?thesis by simp
qed

theorem patch_applies_rules_in_order_witness:
  "fst (read_text target (world_with target (stored (plain ''ab'')))) = Inr (plain ''ab'') \<and>
   files (world_with target (stored (plain ''ab''))) target = Some (stored (plain ''ab'')) \<and>
   writable (stored (plain ''ab'')) \<and>
   list_all2 (\<lambda>rule c. compile_rule rule = Inr c)
     [(raw ''a'', raw ''b''), (raw ''b'', raw ''c'')]
     [([Atom (Single (Literal 97))], [TLiteral 98]), ([Atom (Single (Literal 98))], [TLiteral 99])] \<and>
   list_all encodable (raw ''b'') \<and> list_all encodable (raw ''c'') \<and>
   patch target [(raw ''a'', raw ''b''), (raw ''b'', raw ''c'')] (plain ''ok'')
       (world_with target (stored (plain ''ab''))) =
     (None, print (plain ''ok'')
        (written target (stored (plain ''ab'')) (plain ''cc'')
           (world_with target (stored (plain ''ab''))))) \<and>
   applied_in_order
     [([Atom (Single (Literal 97))], [TLiteral 98]), ([Atom (Single (Literal 98))], [TLiteral 99])]
     (plain ''ab'') (plain ''cc'')"
proof -
  have 1: "fst (read_text target (world_with target (stored (plain ''ab'')))) = Inr (plain ''ab'')"
    by (simp add: world_defs world_with_def stored_def plain_def)
  have 2: "files (world_with target (stored (plain ''ab''))) target = Some (stored (plain ''ab''))"
    by (simp add: world_defs world_with_def stored_def)
  have 3: "writable (stored (plain ''ab''))" by (simp add: world_defs world_with_def stored_def)
  have 4: "list_all2 (\<lambda>rule c. compile_rule rule = Inr c)
     [(raw ''a'', raw ''b''), (raw ''b'', raw ''c'')]
     [([Atom (Single (Literal 97))], [TLiteral 98]), ([Atom (Single (Literal 98))], [TLiteral 99])]"
    by (simp add: compile_rule_def eval_defs)
  have 5: "fold (\<lambda>(p, t). pattern_subx p t False)
     [([Atom (Single (Literal 97))], [TLiteral 98]), ([Atom (Single (Literal 98))], [TLiteral 99])]
     (plain ''ab'') = plain ''cc''"
    by (simp add: eval_defs)
  have 6: "list_all encodable (raw ''b'')" "list_all encodable (raw ''c'')"
    by (simp_all add: raw_def encodable_def)
  then have 7: "\<forall>rule\<in>set [(raw ''a'', raw ''b''), (raw ''b'', raw ''c'')].
      list_all encodable (snd rule)"
    by simp
  show ?thesis
    using 1 2 3 4 6 patch_applies_rules_in_order [OF 1 2 3 4 7, of "plain ''ok''"]
    unfolding 5 by simp
qed

section \<open>The glossary rule\<close>

lemma pattern_compiled:
  "re_compile pattern =
     Inr (literals call_prefix @
          [Max_repeat 0 (Single Category_space), Atom (In_set False [Literal 39, Literal 34])] @
          literals (plain ''<span'') @
          [Max_repeat 0 (In_set True [Literal 62]), Atom (Single (Literal 62)),
           Subpattern 1 [Max_repeat 1 (In_set True [Literal 60])]] @
          literals (plain ''</span>'') @
          [Atom (In_set False [Literal 39, Literal 34])], 1)"
  by (simp add: pattern_def literals_def call_prefix_def eval_defs)

lemma replacement_compiled:
  "parse_template 1 replacement =
     Inr (map TLiteral (call_prefix @ [39]) @ [TGroup 1] @ map TLiteral [39, 41])"
  by (simp add: replacement_def call_prefix_def eval_defs)

lemma match_seq_Atom:
  "match_seq (Atom a # p) (c # s) marks = (if atom_ok a c then match_seq p s marks else [])"
  by simp

lemma match_seq_literals:
  "match_seq (literals l @ p) (l @ s) marks = match_seq p s marks"
  by (induction l) (simp_all add: literals_def)

lemma match_seq_literals_starts:
  "match_seq (literals l @ p) s marks \<noteq> [] \<Longrightarrow> starts_with l s"
proof (induction l arbitrary: s)
  case Nil
  then show ?case by (simp add: starts_with_def)
next
  case (Cons c l)
  then show ?case
    by (cases s) (auto simp: literals_def starts_with_def split: if_splits)
qed

lemma takeWhile_run:
  "list_all P w \<Longrightarrow> (\<forall>c rest'. rest = c # rest' \<longrightarrow> \<not> P c) \<Longrightarrow> takeWhile P (w @ rest) = w"
  by (cases rest) (auto simp: list_all_iff)

lemma match_node_repeat_first:
  assumes "list_all (atom_ok a) w" and "\<forall>c rest'. rest = c # rest' \<longrightarrow> \<not> atom_ok a c"
    and "n \<le> length w"
  shows "\<exists>zs. match_node (Max_repeat n a) (w @ rest) marks = (rest, marks) # zs"
proof -
  from assms(1,2) have t: "takeWhile (atom_ok a) (w @ rest) = w" by (rule takeWhile_run)
  from assms(3) have "[n..<Suc (length w)] = [n..<length w] @ [length w]" by simp
  then have "rev [n..<Suc (length w)] = length w # rev [n..<length w]" by simp
  with t show ?thesis by simp
qed

lemma match_seq_repeat_first:
  assumes "list_all (atom_ok a) w" and "\<forall>c rest'. rest = c # rest' \<longrightarrow> \<not> atom_ok a c"
    and "n \<le> length w" and "match_seq p rest marks = x # xs"
  shows "\<exists>ys. match_seq (Max_repeat n a # p) (w @ rest) marks = x # ys"
proof -
  from match_node_repeat_first [OF assms(1-3)] obtain zs where
    "match_node (Max_repeat n a) (w @ rest) marks = (rest, marks) # zs" by blast
  with assms(4) show ?thesis by (simp del: match_node.simps)
qed

lemma match_seq_group_repeat_first:
  assumes "list_all (atom_ok a) w" and "\<forall>c rest'. rest = c # rest' \<longrightarrow> \<not> atom_ok a c"
    and "n \<le> length w" and "match_seq p rest (marks(g \<mapsto> w)) = x # xs"
  shows "\<exists>ys. match_seq (Subpattern g [Max_repeat n a] # p) (w @ rest) marks = x # ys"
proof -
  from match_node_repeat_first [OF assms(1-3)] obtain zs where
    "match_node (Max_repeat n a) (w @ rest) marks = (rest, marks) # zs" by blast
  then have "\<exists>zs'. match_node (Subpattern g [Max_repeat n a]) (w @ rest) marks =
      (rest, marks(g \<mapsto> w)) # zs'"
    by (simp del: match_node.simps(2))
  then obtain zs' where "match_node (Subpattern g [Max_repeat n a]) (w @ rest) marks =
      (rest, marks(g \<mapsto> w)) # zs'" by blast
  with assms(4) show ?thesis by (simp del: match_node.simps)
qed

lemma match_at_first:
  "match_seq p s Map.empty = x # xs \<Longrightarrow> match_at p False s = Some x"
  by (cases x) (simp add: match_at_def)

lemma match_at_no_start:
  "\<not> starts_with l s \<Longrightarrow> match_at (literals l @ p) False s = None"
proof -
  assume "\<not> starts_with l s"
  with match_seq_literals_starts [of l p s Map.empty]
  have "match_seq (literals l @ p) s Map.empty = []" by blast
  then show ?thesis by (simp add: match_at_def)
qed

lemma starts_with_longer:
  "length l \<le> length x \<Longrightarrow> starts_with l (x @ rest) = starts_with l x"
  by (simp add: starts_with_def)

lemma pattern_subx_skip:
  "no_start l pre \<Longrightarrow>
   pattern_subx (literals l @ p) t False (pre @ l @ rest) =
     pre @ pattern_subx (literals l @ p) t False (l @ rest)"
proof (induction pre)
  case Nil
  then show ?case by simp
next
  case (Cons c cs)
  have "starts_with l ((c # cs @ l) @ rest) = starts_with l (c # cs @ l)"
    by (rule starts_with_longer) simp
  with Cons.prems have "\<not> starts_with l ((c # cs @ l) @ rest)" by simp
  then have "match_at (literals l @ p) False (c # cs @ l @ rest) = None"
    using match_at_no_start by simp
  with Cons show ?case
    by (subst pattern_subx.simps) simp
qed

lemma quote_ok: "q = 39 \<or> q = 34 \<Longrightarrow> atom_ok (In_set False [Literal 39, Literal 34]) q"
  by auto

lemma quote_not_space: "q = 39 \<or> q = 34 \<Longrightarrow> \<not> is_space q"
  by (auto simp: is_space_def)

lemma glossary_first_match:
  assumes ws: "list_all is_space ws" and q1: "q1 = 39 \<or> q1 = 34" and q2: "q2 = 39 \<or> q2 = 34"
    and attrs: "62 \<notin> set attrs" and T: "60 \<notin> set T" "T \<noteq> []"
    and p: "re_compile pattern = Inr (p, g)"
  shows "match_at p False
      (call_prefix @ ws @ [q1] @ plain ''<span'' @ attrs @ [62] @ T @ plain ''</span>'' @ [q2] @ post)
    = Some (post, [1 \<mapsto> T])"
proof -
  let ?q = "Atom (In_set False [Literal 39, Literal 34])"
  let ?m = "[1 \<mapsto> T]"
  let ?p6 = "literals (plain ''</span>'') @ [?q]"
  let ?p5 = "Subpattern 1 [Max_repeat 1 (In_set True [Literal 60])] # ?p6"
  let ?p3 = "Max_repeat 0 (In_set True [Literal 62]) # Atom (Single (Literal 62)) # ?p5"
  let ?p1 = "?q # (literals (plain ''<span'') @ ?p3)"
  let ?p0 = "Max_repeat 0 (Single Category_space) # ?p1"
  let ?s6 = "plain ''</span>'' @ q2 # post"
  let ?s4 = "62 # T @ ?s6"
  let ?s2 = "plain ''<span'' @ attrs @ ?s4"
  have 7: "match_seq [?q] (q2 # post) ?m = [(post, ?m)]"
    using quote_ok [OF q2] by (simp del: atom_ok.simps)
  have 6: "match_seq ?p6 ?s6 ?m = [(post, ?m)]"
    using 7 by (simp only: match_seq_literals)
  have "\<exists>ys. match_seq ?p5 (T @ ?s6) Map.empty = (post, ?m) # ys"
  proof (rule match_seq_group_repeat_first)
    show "list_all (atom_ok (In_set True [Literal 60])) T"
      using T(1) by (auto simp: list_all_iff)
    show "\<forall>c rest'. ?s6 = c # rest' \<longrightarrow> \<not> atom_ok (In_set True [Literal 60]) c"
      by (simp add: plain_def)
    show "1 \<le> length T" using T(2) by (cases T) simp_all
    show "match_seq ?p6 ?s6 ?m = (post, ?m) # []" using 6 .
  qed
  then obtain ys5 where 5: "match_seq ?p5 (T @ ?s6) Map.empty = (post, ?m) # ys5" by blast
  have "\<exists>ys. match_seq ?p3 (attrs @ ?s4) Map.empty = (post, ?m) # ys"
  proof (rule match_seq_repeat_first)
    show "list_all (atom_ok (In_set True [Literal 62])) attrs"
      using attrs by (auto simp: list_all_iff)
    show "\<forall>c rest'. ?s4 = c # rest' \<longrightarrow> \<not> atom_ok (In_set True [Literal 62]) c"
      by simp
    show "0 \<le> length attrs" by simp
    show "match_seq (Atom (Single (Literal 62)) # ?p5) ?s4 Map.empty = (post, ?m) # ys5"
      using 5 by simp
  qed
  then obtain ys3 where 3: "match_seq ?p3 (attrs @ ?s4) Map.empty = (post, ?m) # ys3" by blast
  have 2: "match_seq (literals (plain ''<span'') @ ?p3) ?s2 Map.empty = (post, ?m) # ys3"
    using 3 by (simp only: match_seq_literals)
  have 1: "match_seq ?p1 (q1 # ?s2) Map.empty = (post, ?m) # ys3"
    using 2 quote_ok [OF q1] by (simp del: atom_ok.simps)
  have "\<exists>ys. match_seq ?p0 (ws @ q1 # ?s2) Map.empty = (post, ?m) # ys"
  proof (rule match_seq_repeat_first)
    show "list_all (atom_ok (Single Category_space)) ws"
      using ws by (simp add: list_all_iff)
    show "\<forall>c rest'. q1 # ?s2 = c # rest' \<longrightarrow> \<not> atom_ok (Single Category_space) c"
      using quote_not_space [OF q1] by simp
    show "0 \<le> length ws" by simp
    show "match_seq ?p1 (q1 # ?s2) Map.empty = (post, ?m) # ys3" using 1 .
  qed
  then obtain ys0 where 0: "match_seq ?p0 (ws @ q1 # ?s2) Map.empty = (post, ?m) # ys0" by blast
  have "match_seq (literals call_prefix @ ?p0) (call_prefix @ ws @ q1 # ?s2) Map.empty
      = (post, ?m) # ys0"
    using 0 by (simp only: match_seq_literals)
  moreover have "p = literals call_prefix @ ?p0"
    using p by (auto simp: pattern_compiled)
  ultimately show ?thesis
    using match_at_first by simp
qed


lemma expand_literals: "concat (map (expand_part marks \<circ> TLiteral) l) = l"
  by (induction l) simp_all

lemma glossary_call_exact:
  assumes "list_all is_space ws" and "q1 = 39 \<or> q1 = 34" and "q2 = 39 \<or> q2 = 34"
    and "62 \<notin> set attrs" and "60 \<notin> set T" and "T \<noteq> []"
    and "no_start call_prefix pre"
  shows "\<exists>rest. re_sub pattern replacement post = Inr rest \<and>
    re_sub pattern replacement
      (pre @ call_prefix @ ws @ [q1] @ plain ''<span'' @ attrs @ [62] @ T @ plain ''</span>'' @
       [q2] @ post)
    = Inr (pre @ call_prefix @ [39] @ T @ [39, 41] @ rest)"
proof -
  obtain p where p: "re_compile pattern = Inr (p, 1)" "\<exists>p'. p = literals call_prefix @ p'"
    using pattern_compiled by blast
  obtain t where t: "parse_template 1 replacement = Inr t"
      "t = map TLiteral (call_prefix @ [39]) @ [TGroup 1] @ map TLiteral [39, 41]"
    using replacement_compiled by blast
  let ?call = "call_prefix @ ws @ [q1] @ plain ''<span'' @ attrs @ [62] @ T @ plain ''</span>'' @
       [q2] @ post"
  have sub: "re_sub pattern replacement s = Inr (pattern_subx p t False s)" for s
    using p(1) t(1) by (simp add: re_sub_def)
  have m: "match_at p False ?call = Some (post, [1 \<mapsto> T])"
    using glossary_first_match [OF assms(1-6) p(1)] .
  have e: "expand_template t [1 \<mapsto> T] = call_prefix @ [39] @ T @ [39, 41]"
    using t(2) by (simp add: expand_template_def expand_literals)
  have ne: "post \<noteq> ?call" using assms(6) by (auto dest: arg_cong [of _ _ length])
  have "pattern_subx p t False ?call = expand_template t [1 \<mapsto> T] @ pattern_subx p t False post"
    using m ne by (subst pattern_subx.simps) simp
  with e have c: "pattern_subx p t False ?call =
      call_prefix @ [39] @ T @ [39, 41] @ pattern_subx p t False post"
    by simp
  from p(2) obtain p' where p': "p = literals call_prefix @ p'" by blast
  have "pattern_subx p t False (pre @ call_prefix @ (ws @ [q1] @ plain ''<span'' @ attrs @ [62] @ T @
      plain ''</span>'' @ [q2] @ post)) =
    pre @ pattern_subx p t False (call_prefix @ (ws @ [q1] @ plain ''<span'' @ attrs @ [62] @ T @
      plain ''</span>'' @ [q2] @ post))"
    unfolding p' using assms(7) by (rule pattern_subx_skip)
  with c have "pattern_subx p t False (pre @ ?call) =
      pre @ call_prefix @ [39] @ T @ [39, 41] @ pattern_subx p t False post"
    by simp
  with sub show ?thesis by simp
qed

text \<open>
  Claim C2, as stated: every \<^verbatim>\<open>insertContent\<close> call whose quoted argument is a span
  around a text \<open>T\<close> has that argument reduced to \<open>T\<close>. The pattern of the script asks for
  \<^verbatim>\<open>editor.chain().focus().deleteRange(range).\<close> before \<^verbatim>\<open>insertContent(\<close>; a call without
  it is no match and stays as it is.
\<close>

theorem glossary_counterexample:
  \<open>re_sub pattern replacement (plain ''insertContent('<span class="term">Glossary Word</span>')'')
     = Inr (plain ''insertContent('<span class="term">Glossary Word</span>')'') \<and>
   plain ''insertContent('<span class="term">Glossary Word</span>')''
     \<noteq> plain ''insertContent('Glossary Word')''\<close>
  by (simp add: pattern_def replacement_def eval_defs)

text \<open>
  Claim C2, amended. Take the first call of the form
  \<^verbatim>\<open>editor.chain().focus().deleteRange(range).insertContent(\<close>, then whitespace \<open>ws\<close>, a
  quote \<open>q1\<close> (single or double), \<^verbatim>\<open><span\<close>, attributes without \<^verbatim>\<open>>\<close>, \<^verbatim>\<open>>\<close>, a text \<open>T\<close> that
  is not empty and has no \<^verbatim>\<open><\<close>, \<^verbatim>\<open></span>\<close> and a quote \<open>q2\<close>. The substitution keeps the
  text before the call, drops the whitespace and the span markup, and leaves the call
  with the argument \<open>T\<close> in single quotes. What follows the closing quote is not stated
  here.
\<close>

theorem glossary_call_reduced:
  assumes "list_all is_space ws" and "q1 = 39 \<or> q1 = 34" and "q2 = 39 \<or> q2 = 34"
    and "62 \<notin> set attrs" and "60 \<notin> set T" and "T \<noteq> []"
    and "no_start call_prefix pre"
  shows "\<exists>rest. re_sub pattern replacement
      (pre @ call_prefix @ ws @ [q1] @ plain ''<span'' @ attrs @ [62] @ T @ plain ''</span>'' @
       [q2] @ post)
    = Inr (pre @ call_prefix @ [39] @ T @ [39] @ rest)"
proof -
  from glossary_call_exact [OF assms] obtain rest where
    "re_sub pattern replacement
      (pre @ call_prefix @ ws @ [q1] @ plain ''<span'' @ attrs @ [62] @ T @ plain ''</span>'' @
       [q2] @ post)
    = Inr (pre @ call_prefix @ [39] @ T @ [39, 41] @ rest)"
    by blast
  then show ?thesis by simp
qed

theorem glossary_call_reduced_witness:
  "list_all is_space (lit ''~n  '') \<and> 62 \<notin> set (plain '' class=term'') \<and>
   60 \<notin> set (plain ''Glossary Word'') \<and> plain ''Glossary Word'' \<noteq> [] \<and>
   no_start call_prefix (plain ''x = '') \<and>
   (\<exists>rest. re_sub pattern replacement
      (plain ''x = '' @ call_prefix @ lit ''~n  '' @ [34] @ plain ''<span'' @ plain '' class=term'' @
       [62] @ plain ''Glossary Word'' @ plain ''</span>'' @ [34] @ plain '').run();'')
    = Inr (plain ''x = '' @ call_prefix @ [39] @ plain ''Glossary Word'' @ [39] @ rest))"
proof -
  have 1: "list_all is_space (lit ''~n  '')" by (simp add: is_space_def)
  have 2: "(34::nat) = 39 \<or> (34::nat) = 34" by simp
  have 4: "62 \<notin> set (plain '' class=term'')" by (simp add: plain_def)
  have 5: "60 \<notin> set (plain ''Glossary Word'')" by (simp add: plain_def)
  have 6: "plain ''Glossary Word'' \<noteq> []" by (simp add: plain_def)
  have 7: "no_start call_prefix (plain ''x = '')"
    by (simp add: plain_def call_prefix_def starts_with_def)
  show ?thesis
    using 1 4 5 6 7 glossary_call_reduced [OF 1 2 2 4 5 6 7, of "plain '').run();''"]
    by simp
qed


end
